theory Spec2Isabelle
  imports Main "HOL-Library.AList" "HOL-Library.Sublist"
begin

section \<open>Session management of wppconnect-server (src/util/manageSession.ts)\<close>

text \<open>
  The module exports four operations over the registry of live clients
  (\<open>clientsArray\<close>) and a handful of directories: \<open>backupSessions\<close>,
  \<open>restoreSessions\<close>, \<open>closeAllSessions\<close> and \<open>deleteAllSessions\<close>.
  Every operation is embedded as a function on an explicit world state. What the
  operation does to things outside the process (closing a browser, restarting the
  sessions, answering the request, writing a log line) is appended to a trace, in the
  order in which the JavaScript issues it. What the outside decides (whether a close
  call throws, whether a file-system call fails, whether a stream errors) is read from
  an environment record, so that a theorem about every execution quantifies over it.
\<close>

subsection \<open>Files and directories\<close>

type_synonym bytes = string

datatype node = File bytes | Dir "(string \<times> node) list"

text \<open>
  A directory lists its children in the order in which the operating system enumerates
  them. \<open>wf_node\<close> says that no directory holds two children of the same name.
\<close>

fun wf_node :: "node \<Rightarrow> bool" where
  "wf_node (File b) = True"
| "wf_node (Dir cs) = (distinct (map fst cs) \<and> (\<forall>c \<in> set cs. wf_node (snd c)))"

fun is_dir :: "node \<Rightarrow> bool" where
  "is_dir (File b) = False"
| "is_dir (Dir cs) = True"

fun lookup :: "node \<Rightarrow> string list \<Rightarrow> node option" where
  "lookup n [] = Some n"
| "lookup (File b) (x # xs) = None"
| "lookup (Dir cs) (x # xs) = (case map_of cs x of None \<Rightarrow> None | Some c \<Rightarrow> lookup c xs)"

text \<open>The contents of the file at a relative path, if there is a file there.\<close>

definition file_at :: "node \<Rightarrow> string list \<Rightarrow> bytes option" where
  "file_at n p = (case lookup n p of Some (File b) \<Rightarrow> Some b | _ \<Rightarrow> None)"

definition file_in :: "node option \<Rightarrow> string list \<Rightarrow> bytes option" where
  "file_in d p = (case d of None \<Rightarrow> None | Some n \<Rightarrow> file_at n p)"

definition child :: "node option \<Rightarrow> string \<Rightarrow> node option" where
  "child d name = (case d of Some (Dir cs) \<Rightarrow> map_of cs name | _ \<Rightarrow> None)"

subsection \<open>The file-system calls the module makes\<close>

text \<open>
  \<open>fs.cpSync(src, dest, {recursive: true, force})\<close> on one entry. A file is copied
  where nothing exists; over an existing file it is copied when \<open>force\<close> is set and
  skipped otherwise (\<open>errorOnExist\<close> is not set); a file onto a directory and a
  directory onto a file throw (\<open>ERR_FS_CP_NON_DIR_TO_DIR\<close>,
  \<open>ERR_FS_CP_DIR_TO_NON_DIR\<close>). A directory is created where nothing exists and its
  entries are copied one after the other, in the order of enumeration. The second
  component is \<open>False\<close> when the call threw; the first is the destination as the call
  left it, so what was copied before the throw stays copied.
\<close>

fun cp_node :: "bool \<Rightarrow> node \<Rightarrow> node option \<Rightarrow> node \<times> bool"
and cp_items :: "bool \<Rightarrow> (string \<times> node) list \<Rightarrow> (string \<times> node) list \<Rightarrow> node \<times> bool"
where
  "cp_node force (File b) None = (File b, True)"
| "cp_node force (File b) (Some (File b')) = (if force then File b else File b', True)"
| "cp_node force (File b) (Some (Dir ds)) = (Dir ds, False)"
| "cp_node force (Dir cs) (Some (File b')) = (File b', False)"
| "cp_node force (Dir cs) None = cp_items force cs []"
| "cp_node force (Dir cs) (Some (Dir ds)) = cp_items force cs ds"
| "cp_items force [] ds = (Dir ds, True)"
| "cp_items force ((name, c) # cs) ds =
     (case cp_node force c (map_of ds name) of
        (c', True) \<Rightarrow> cp_items force cs (AList.update name c' ds)
      | (c', False) \<Rightarrow> (Dir (AList.update name c' ds), False))"

text \<open>The call itself: a source that does not exist throws \<open>ENOENT\<close>.\<close>

definition cpSync :: "bool \<Rightarrow> node option \<Rightarrow> node option \<Rightarrow> node option \<times> bool" where
  "cpSync force src dest =
     (case src of
        None \<Rightarrow> (dest, False)
      | Some s \<Rightarrow> (case cp_node force s dest of (d, ok) \<Rightarrow> (Some d, ok)))"

subsection \<open>Clients, log and trace\<close>

text \<open>
  A client handle, as far as this module uses it: the truthiness of \<open>client.status\<close>
  and what \<open>client.page.browser().close()\<close> does when it is called. The call can throw
  at once, or return a promise that is fulfilled or rejected during the 500 ms that
  \<open>closeAllSessions\<close> waits, or one that is still outstanding when the wait is over.
\<close>

datatype close_outcome = CloseThrows | CloseResolves | CloseRejects | CloseOutstanding

record client =
  status :: bool
  browser_close :: close_outcome

text \<open>
  The trace records the calls of the logger (\<open>Log\<close>) and of \<open>console.log\<close>
  (\<open>Console\<close>), the deletions of registry entries, the close requests, the end of
  the 500 ms wait, the return of \<open>restoreSessions\<close>, the \<open>close\<close> event of the
  extraction stream, the calls of \<open>startAllSessions\<close>, \<open>archive.finalize()\<close>,
  the \<open>close\<close> event of the archive file's write stream, the removal of the staging
  directory, the start and the end of the read stream, every call of \<open>res.end()\<close>
  (\<open>ResponseEnded\<close>) and the calls of \<open>reject\<close>. \<open>startAllSessions\<close> and \<open>getAllTokens\<close> are defined outside this
  module: a call of the first is recorded and what it does to the registry is left
  open; what the second resolves to is a parameter.
\<close>

datatype level = Info | Warn | Err

datatype event =
    Log level string
  | Console string
  | RegistryDelete string
  | BrowserClose string
  | GraceElapsed
  | Returned
  | ExtractClosed
  | StartAllSessions
  | ArchiveStarted
  | OutputClosed
  | StagingRemoved
  | StreamStarted
  | StreamEnded
  | ResponseEnded
  | Reject

text \<open>
  An archive is given by its top-level names, each with the tree of the entries below
  it: a \<open>File\<close> node is a file entry, a \<open>Dir\<close> node a directory entry together with
  the entries inside it. Names, structure and file contents are all that is kept of an
  entry. An upload holds an archive or bytes that are no archive.
\<close>

type_synonym archive = "(string \<times> node) list"

datatype payload = Zip archive | Garbage

text \<open>
  The directories are the ones the source names: \<open>tokensDir\<close> is
  \<open>__dirname/../../tokens\<close>, \<open>userDataDir\<close> is \<open>config.customUserDataDir\<close>,
  \<open>backupFolder\<close> is \<open>__dirname/../../backupFolder\<close>, \<open>backupZip\<close> is the file
  \<open>__dirname/../backupSessions.zip\<close> and \<open>restoreDir\<close> is \<open>./restore\<close>. The server
  runs with the project root as its working directory, so \<open>./restore\<close> and
  \<open>__dirname/../../restore\<close> are one directory, as are \<open>tokens\<close> and
  \<open>__dirname/../../tokens\<close>; the five places are different and none lies inside
  another. \<open>None\<close> says that nothing exists at the place. \<open>extracting\<close> holds the
  upload of an extraction stream whose \<open>close\<close> listener is registered and has not
  run; \<open>response\<close> is what has been piped to the HTTP response.
\<close>

record world =
  clientsArray :: "string \<rightharpoonup> client"
  tokensDir :: "node option"
  userDataDir :: "node option"
  backupFolder :: "node option"
  backupZip :: "archive option"
  restoreDir :: "node option"
  extracting :: "payload option"
  response :: "archive option"
  trace :: "event list"

datatype fs_error = ENOENT | ENOTDIR | EACCES

datatype place = UserData | Tokens

text \<open>
  \<open>getAllTokens\<close> is the list that \<open>getAllTokens(req)\<close> resolves to;
  \<open>sessionDirPath\<close> and \<open>tokensDirPath\<close> are the two resolved paths that
  \<open>deleteAllSessions\<close> prints. The four \<open>_fails\<close> fields say which file-system
  calls of \<open>deleteAllSessions\<close> throw for a reason the directory tree does not show
  (permissions, a busy file). In \<open>backupSessions\<close>, \<open>archive_error\<close> is the
  message of the error the archiver emits, if it emits one, \<open>stream_error\<close> that of
  the read stream, \<open>delivered_before_error\<close> how many top-level entries of the
  archive file the read stream has handed to the response when it emits that error, and
  \<open>staging_rm_fails\<close> says whether removing the staging directory throws.
  \<open>extract_makes_dirs\<close> is a point on which the releases of \<open>unzipper\<close> differ
  and which the module does not fix: whether \<open>Extract\<close> creates a directory for a
  directory entry, or skips the entry and creates only the directories that a file
  entry needs.
\<close>

record env =
  getAllTokens :: "string list"
  sessionDirPath :: string
  tokensDirPath :: string
  readdir_fails :: "place \<Rightarrow> bool"
  lstat_fails :: "place \<Rightarrow> string \<Rightarrow> bool"
  rm_fails :: "string \<Rightarrow> bool"
  unlink_fails :: "place \<Rightarrow> string \<Rightarrow> bool"
  archive_error :: "string option"
  staging_rm_fails :: bool
  stream_error :: "string option"
  delivered_before_error :: nat
  extract_makes_dirs :: bool

datatype js_error = Error string

record ack =
  success :: bool
  message :: "string option"

definition emit :: "event \<Rightarrow> world \<Rightarrow> world" where
  "emit e w = w\<lparr>trace := trace w @ [e]\<rparr>"

subsection \<open>closeAllSessions\<close>

text \<open>
  \<open>delete clientsArray[session]\<close>.
\<close>

definition delete_client :: "string \<Rightarrow> world \<Rightarrow> world" where
  "delete_client session w =
     emit (RegistryDelete session) (w\<lparr>clientsArray := (clientsArray w)(session := None)\<rparr>)"

text \<open>\<open>client?.status\<close>: an absent client is falsy.\<close>

definition status_truthy :: "client option \<Rightarrow> bool" where
  "status_truthy c = (case c of None \<Rightarrow> False | Some cl \<Rightarrow> status cl)"

text \<open>
  The callback of \<open>names.forEach\<close> up to its first \<open>await\<close>. It reads the client,
  deletes the registry entry and, when the status is truthy, logs and calls
  \<open>close()\<close>. A call that throws lands in the \<open>catch\<close>; one that returns a promise
  suspends the callback, which is kept in the list of pending continuations. With a
  falsy status nothing is awaited and the second \<open>delete\<close> follows at once.
\<close>

fun close_session ::
  "world \<times> (string \<times> close_outcome) list \<Rightarrow> string \<Rightarrow> world \<times> (string \<times> close_outcome) list"
where
  "close_session (w, pending) session =
     (let c = clientsArray w session;
          w1 = delete_client session w
      in if status_truthy c then
           (let w2 = emit (BrowserClose session)
                       (emit (Log Info (''Stopping session: '' @ session)) w1)
            in case browser_close (the c) of
                 CloseThrows \<Rightarrow>
                   (emit (Log Err (''Error stopping session: '' @ session)) w2, pending)
               | outcome \<Rightarrow> (w2, pending @ [(session, outcome)]))
         else (delete_client session w1, pending))"

text \<open>
  The rest of the callback, run when the awaited promise settles: the second
  \<open>delete\<close> after a fulfilment, the \<open>catch\<close> after a rejection. A promise that is
  outstanding when the wait ends has no effect before \<open>closeAllSessions\<close> returns.
\<close>

fun settle :: "world \<Rightarrow> string \<times> close_outcome \<Rightarrow> world" where
  "settle w (session, CloseResolves) = delete_client session w"
| "settle w (session, CloseRejects) = emit (Log Err (''Error stopping session: '' @ session)) w"
| "settle w (session, outcome) = w"

definition closeAllSessions :: "env \<Rightarrow> world \<Rightarrow> world" where
  "closeAllSessions e w =
     (let names = getAllTokens e;
          (w1, pending) = foldl close_session (w, []) names;
          w2 = foldl settle w1 pending
      in emit GraceElapsed w2)"

subsection \<open>restoreSessions\<close>

text \<open>\<open>String.prototype.includes\<close>.\<close>

fun str_includes :: "string \<Rightarrow> string \<Rightarrow> bool" where
  "str_includes [] sub = (sub = [])"
| "str_includes (c # cs) sub = (take (length sub) (c # cs) = sub \<or> str_includes cs sub)"

text \<open>
  The uploaded file: its declared content type (\<open>file.mimetype\<close>, which may be
  undefined) and the archive stored at \<open>file.path\<close>. The argument itself may be
  undefined.
\<close>

record upload =
  mimetype :: "string option"
  content :: payload

text \<open>\<open>file?.mimetype?.includes('zip')\<close>, undefined being falsy.\<close>

definition declares_zip :: "upload option \<Rightarrow> bool" where
  "declares_zip file =
     (case file of None \<Rightarrow> False
      | Some f \<Rightarrow> (case mimetype f of None \<Rightarrow> False | Some m \<Rightarrow> str_includes m ''zip''))"

text \<open>
  The body of \<open>restoreSessions\<close> up to its \<open>return\<close>. The extraction stream is
  created and its \<open>close\<close> listener registered; nothing is read from the stream
  before the function has returned.
\<close>

definition restoreSessions :: "env \<Rightarrow> world \<Rightarrow> upload option \<Rightarrow> (js_error + ack) \<times> world" where
  "restoreSessions e w file =
     (if \<not> declares_zip file then (Inl (Error ''Please, send zipped file''), w)
      else
        (let w1 = emit (Log Info ''Starting restore sessions...'') w;
             w2 = closeAllSessions e w1;
             w3 = w2\<lparr>extracting := Some (content (the file))\<rparr>
         in (Inr \<lparr>success = True, message = None\<rparr>, emit Returned w3)))"

text \<open>
  The listener of the extraction stream's \<open>close\<close> event: two copies, each in its own
  \<open>try\<close> whose \<open>catch\<close> only logs, then the restart.
\<close>

definition on_extract_close :: "world \<Rightarrow> world" where
  "on_extract_close w =
     (let (t, ok1) = cpSync True (child (restoreDir w) ''tokens'') (tokensDir w);
          w1 = w\<lparr>tokensDir := t\<rparr>;
          w2 = (if ok1 then w1 else emit (Log Info ''Folder 'tokens' not found.'') w1);
          (u, ok2) = cpSync False (child (restoreDir w2) ''userDataDir'') (userDataDir w2);
          w3 = w2\<lparr>userDataDir := u\<rparr>;
          w4 = (if ok2 then w3 else emit (Log Info ''Folder 'userDataDir' not found.'') w3);
          w5 = emit (Log Info ''Sessions successfully restored. Starting...'') w4
      in emit StartAllSessions w5)"

text \<open>
  What the file entries of a tree write when the directory entries are skipped: the
  files, each with the directories on its path. A directory with no file at any depth
  below it leaves nothing.
\<close>

fun files_only :: "node \<Rightarrow> node option"
and files_only_items :: "(string \<times> node) list \<Rightarrow> (string \<times> node) list"
where
  "files_only (File b) = Some (File b)"
| "files_only (Dir cs) = (case files_only_items cs of [] \<Rightarrow> None | c # ws \<Rightarrow> Some (Dir (c # ws)))"
| "files_only_items [] = []"
| "files_only_items ((name, c) # cs) =
     (case files_only c of
        None \<Rightarrow> files_only_items cs
      | Some c' \<Rightarrow> (name, c') # files_only_items cs)"

definition extract_entries :: "env \<Rightarrow> archive \<Rightarrow> archive" where
  "extract_entries e arch = (if extract_makes_dirs e then arch else files_only_items arch)"

text \<open>
  \<open>unzipper.Extract({path: './restore'})\<close> fed with an archive: the entries are
  written under \<open>./restore\<close>, over what is there (nothing is removed first), in the
  order of the archive. The second component says whether every entry was written; an
  entry that meets a file where it needs a directory, or a directory where it is a
  file, is not, and ends the extraction. An archive that writes nothing leaves the
  place as it is.
\<close>

definition unzipper_Extract :: "env \<Rightarrow> archive \<Rightarrow> node option \<Rightarrow> node option \<times> bool" where
  "unzipper_Extract e arch dest =
     (if extract_entries e arch = [] then (dest, True)
      else case cp_node True (Dir (extract_entries e arch)) dest of (r, ok) \<Rightarrow> (Some r, ok))"

text \<open>
  What happens after \<open>restoreSessions\<close> has returned: the extraction stream writes the
  entries of the upload and emits \<open>close\<close> when it has written them all. Bytes that
  are no archive, and an entry that cannot be written, end the stream with an error
  and \<open>close\<close> is not emitted.
\<close>

definition run_extraction :: "env \<Rightarrow> world \<Rightarrow> world" where
  "run_extraction e w =
     (case extracting w of
        None \<Rightarrow> w
      | Some Garbage \<Rightarrow> w\<lparr>extracting := None\<rparr>
      | Some (Zip arch) \<Rightarrow>
          (case unzipper_Extract e arch (restoreDir w) of
             (r, ok) \<Rightarrow>
               (let w1 = w\<lparr>restoreDir := r, extracting := None\<rparr>
                in if ok then on_extract_close (emit ExtractClosed w1) else w1)))"

text \<open>The call and the events that follow it.\<close>

definition restore_run :: "env \<Rightarrow> world \<Rightarrow> upload option \<Rightarrow> (js_error + ack) \<times> world" where
  "restore_run e w file =
     (case restoreSessions e w file of
        (Inl err, w') \<Rightarrow> (Inl err, w')
      | (Inr a, w') \<Rightarrow> (Inr a, run_extraction e w'))"

subsection \<open>backupSessions\<close>

datatype promise = Pending | Fulfilled | RejectedP

definition errmsg :: "fs_error \<Rightarrow> string" where
  "errmsg err = (case err of ENOENT \<Rightarrow> ''ENOENT'' | ENOTDIR \<Rightarrow> ''ENOTDIR'' | EACCES \<Rightarrow> ''EACCES'')"

text \<open>
  The listener of \<open>output\<close>'s \<open>close\<close> event. \<open>rmSync\<close> removes the staging
  directory; when it throws, the listener ends there. The archive file is then piped to
  the response (line 59) and the two listeners of lines 60 and 65 are registered on the
  read stream. \<open>pipe\<close> has registered its own \<open>end\<close> listener before them, which
  calls \<open>res.end()\<close>. So when the read stream has handed the whole file to the
  response and emits \<open>end\<close>, the response is ended first; then the listener of line 60
  logs, calls \<open>startAllSessions\<close> and calls \<open>res.end()\<close> a second time. When the
  read stream emits \<open>error\<close> instead, the response holds what was delivered until
  then and is not ended; the listener of line 65 prints the error and calls \<open>reject\<close>.
\<close>

definition on_output_close :: "env \<Rightarrow> world \<Rightarrow> promise \<times> world" where
  "on_output_close e w =
     (if staging_rm_fails e then (Pending, w)
      else
        (let w1 = emit StagingRemoved (w\<lparr>backupFolder := None\<rparr>);
             w2 = emit StreamStarted w1
         in case stream_error e of
              Some msg \<Rightarrow>
                (let w3 = w2\<lparr>response :=
                                map_option (take (delivered_before_error e)) (backupZip w2)\<rparr>
                 in (RejectedP, emit Reject (emit (Console msg) w3)))
            | None \<Rightarrow>
                (let w3 = emit StreamEnded (w2\<lparr>response := backupZip w2\<rparr>);
                     w4 = emit ResponseEnded w3;
                     w5 = emit (Log Info ''Sessions successfully backuped. Restarting sessions...'') w4;
                     w6 = emit StartAllSessions w5
                 in (Pending, emit ResponseEnded w6))))"

text \<open>
  \<open>archive.directory(dirpath, name)\<close>: the archiver walks \<open>dirpath\<close> and appends one
  entry for every file and every directory below it, under \<open>name\<close>; \<open>dirpath\<close>
  itself is no entry. A path at which nothing exists, a path at which a file stands and
  an empty directory are walked without a match and without an error, so nothing is
  appended for them.
\<close>

definition archive_directory :: "string \<Rightarrow> node option \<Rightarrow> archive" where
  "archive_directory name d =
     (case d of
        Some (Dir (c # cs)) \<Rightarrow> [(name, Dir (c # cs))]
      | _ \<Rightarrow> [])"

text \<open>
  The executor of the promise that \<open>backupSessions\<close> returns, and the events that
  follow it; the first component is the state in which the promise is left. The
  executor is an \<open>async\<close> function, so an exception in it (\<open>cpSync\<close> throwing)
  rejects the executor's own promise and settles nothing. \<open>createWriteStream\<close>
  truncates the archive file. Both \<open>archive.directory\<close> calls only queue their
  directory; the archiver walks the two directories after \<open>finalize\<close>, and either
  emits \<open>error\<close>, which leaves the archive unfinished and \<open>output\<close> open, or writes
  the entries it found, after which \<open>output\<close> emits \<open>close\<close>.
\<close>

definition backupSessions :: "env \<Rightarrow> world \<Rightarrow> promise \<times> world" where
  "backupSessions e w =
     (let w1 = closeAllSessions e w;
          w2 = w1\<lparr>backupZip := Some []\<rparr>;
          (bf, ok) = cpSync True (userDataDir w2) (backupFolder w2);
          w3 = w2\<lparr>backupFolder := bf\<rparr>
      in if \<not> ok then (Pending, w3)
         else
           (let w4 = emit ArchiveStarted w3
            in case archive_error e of
                 Some msg \<Rightarrow> (RejectedP, emit (Log Err msg) (emit Reject w4))
               | None \<Rightarrow>
                   on_output_close e
                     (emit OutputClosed
                        (w4\<lparr>backupZip :=
                              Some (archive_directory ''tokens'' (tokensDir w4) @
                                    archive_directory ''userDataDir'' (backupFolder w4))\<rparr>))))"

subsection \<open>deleteAllSessions\<close>

definition get_dir :: "place \<Rightarrow> world \<Rightarrow> node option" where
  "get_dir pl w = (case pl of UserData \<Rightarrow> userDataDir w | Tokens \<Rightarrow> tokensDir w)"

definition set_dir :: "place \<Rightarrow> node option \<Rightarrow> world \<Rightarrow> world" where
  "set_dir pl d w = (case pl of UserData \<Rightarrow> w\<lparr>userDataDir := d\<rparr> | Tokens \<Rightarrow> w\<lparr>tokensDir := d\<rparr>)"

text \<open>\<open>readdirSync\<close> of a path that exists.\<close>

definition readdirSync :: "env \<Rightarrow> place \<Rightarrow> node \<Rightarrow> fs_error + string list" where
  "readdirSync e pl d =
     (if readdir_fails e pl then Inl EACCES
      else case d of File b \<Rightarrow> Inl ENOTDIR | Dir cs \<Rightarrow> Inr (map fst cs))"

text \<open>\<open>lstatSync(itemPath).isDirectory()\<close>.\<close>

definition lstat_isDirectory :: "env \<Rightarrow> place \<Rightarrow> world \<Rightarrow> string \<Rightarrow> fs_error + bool" where
  "lstat_isDirectory e pl w item =
     (if lstat_fails e pl item then Inl EACCES
      else case child (get_dir pl w) item of None \<Rightarrow> Inl ENOENT | Some c \<Rightarrow> Inr (is_dir c))"

text \<open>What a successful \<open>unlinkSync\<close> or recursive \<open>rmSync\<close> of a child leaves.\<close>

definition remove_child :: "place \<Rightarrow> string \<Rightarrow> world \<Rightarrow> world" where
  "remove_child pl item w =
     set_dir pl
       (case get_dir pl w of
          Some (Dir cs) \<Rightarrow> Some (Dir (AList.delete item cs))
        | d \<Rightarrow> d) w"

text \<open>
  The body of the loop over the User Data Tree: everything is inside the inner
  \<open>try\<close>, whose \<open>catch\<close> logs.
\<close>

definition clear_userdata_item :: "env \<Rightarrow> world \<Rightarrow> string \<Rightarrow> world" where
  "clear_userdata_item e w item =
     (let itemPath = sessionDirPath e @ ''/'' @ item
      in case lstat_isDirectory e UserData w item of
           Inl err \<Rightarrow>
             emit (Log Err (''Error deleting item '' @ itemPath @ '': '' @ errmsg err)) w
         | Inr True \<Rightarrow>
             (if rm_fails e item
              then emit (Log Err (''Error deleting item '' @ itemPath @ '': '' @ errmsg EACCES)) w
              else emit (Log Info (''Deleted directory: '' @ itemPath))
                     (remove_child UserData item w))
         | Inr False \<Rightarrow>
             (if unlink_fails e UserData item
              then emit (Log Err (''Error deleting item '' @ itemPath @ '': '' @ errmsg EACCES)) w
              else emit (Log Info (''Deleted file: '' @ itemPath))
                     (remove_child UserData item w)))"

definition clear_userdata :: "env \<Rightarrow> world \<Rightarrow> world" where
  "clear_userdata e w =
     (case userDataDir w of
        None \<Rightarrow>
          emit (Log Warn (''Session directory does not exist, nothing to clear: ''
                           @ sessionDirPath e)) w
      | Some d \<Rightarrow>
          (case readdirSync e UserData d of
             Inl err \<Rightarrow>
               emit (Log Err (''Error clearing session directory '' @ sessionDirPath e
                               @ '': '' @ errmsg err)) w
           | Inr items \<Rightarrow>
               emit (Log Info (''Successfully cleared session directory: '' @ sessionDirPath e))
                 (foldl (clear_userdata_item e) w items)))"

text \<open>
  The body of the loop over the Token Store once \<open>lstatSync\<close> has answered: a file is
  unlinked inside the inner \<open>try\<close>, whose \<open>catch\<close> logs; a directory is skipped
  with a warning.
\<close>

definition clear_token_item :: "env \<Rightarrow> world \<Rightarrow> string \<Rightarrow> bool \<Rightarrow> world" where
  "clear_token_item e w item isDirectory =
     (let itemPath = tokensDirPath e @ ''/'' @ item
      in if \<not> isDirectory then
           (if unlink_fails e Tokens item
            then emit (Log Err (''Error deleting token file '' @ itemPath @ '': ''
                                 @ errmsg EACCES)) w
            else emit (Log Info (''Deleted token file: '' @ itemPath))
                   (remove_child Tokens item w))
         else emit (Log Warn (''Skipping unexpected directory in tokens folder: ''
                               @ itemPath)) w)"

text \<open>
  The loop. \<open>lstatSync\<close> is outside the inner \<open>try\<close>: when it throws, the loop is
  left with the error.
\<close>

fun clear_token_items :: "env \<Rightarrow> string list \<Rightarrow> world \<Rightarrow> fs_error option \<times> world" where
  "clear_token_items e [] w = (None, w)"
| "clear_token_items e (item # items) w =
     (case lstat_isDirectory e Tokens w item of
        Inl err \<Rightarrow> (Some err, w)
      | Inr isDirectory \<Rightarrow> clear_token_items e items (clear_token_item e w item isDirectory))"

text \<open>The outer \<open>catch\<close> of the Token Store phase logs and throws a new error.\<close>

definition token_cleanup_failed :: "env \<Rightarrow> fs_error \<Rightarrow> world \<Rightarrow> js_error option \<times> world" where
  "token_cleanup_failed e err w =
     (Some (Error (''Failed to fully clear all session data. Error during token cleanup: ''
                    @ errmsg err)),
      emit (Log Err (''Error clearing tokens directory '' @ tokensDirPath e @ '': ''
                      @ errmsg err)) w)"

definition clear_tokens :: "env \<Rightarrow> world \<Rightarrow> js_error option \<times> world" where
  "clear_tokens e w =
     (case tokensDir w of
        None \<Rightarrow>
          (None, emit (Log Warn (''Tokens directory does not exist, nothing to clear: ''
                                  @ tokensDirPath e)) w)
      | Some d \<Rightarrow>
          (case readdirSync e Tokens d of
             Inl err \<Rightarrow> token_cleanup_failed e err w
           | Inr items \<Rightarrow>
               (case clear_token_items e items w of
                  (Some err, w') \<Rightarrow> token_cleanup_failed e err w'
                | (None, w') \<Rightarrow>
                    (None, emit (Log Info (''Successfully cleared tokens directory: ''
                                            @ tokensDirPath e)) w'))))"

definition deleteAllSessions :: "env \<Rightarrow> world \<Rightarrow> (js_error + ack) \<times> world" where
  "deleteAllSessions e w =
     (let w1 = emit (Log Info ''Attempting to delete all sessions...'') w;
          w2 = closeAllSessions e w1;
          w3 = emit (Log Info ''All active browser sessions closed.'') w2;
          w4 = emit (Log Info (''Attempting to clear session directory: '' @ sessionDirPath e)) w3;
          w5 = clear_userdata e w4;
          w6 = emit (Log Info (''Attempting to clear tokens directory: '' @ tokensDirPath e)) w5
      in case clear_tokens e w6 of
           (Some err, w7) \<Rightarrow> (Inl err, w7)
         | (None, w7) \<Rightarrow>
             (Inr \<lparr>success = True,
                   message = Some ''All sessions closed and data/tokens cleared.''\<rparr>, w7))"

section \<open>Vocabulary of the properties\<close>

text \<open>The events a run appends to the trace it started with.\<close>

definition new_events :: "world \<Rightarrow> world \<Rightarrow> event list" where
  "new_events w w' = drop (length (trace w)) (trace w')"

text \<open>
  Every call of \<open>close()\<close> in a list of events comes after a \<open>delete\<close> of the same
  session's registry entry.
\<close>

definition removal_precedes_close :: "event list \<Rightarrow> bool" where
  "removal_precedes_close evs =
     (\<forall>i<length evs. \<forall>s. evs ! i = BrowserClose s \<longrightarrow> (\<exists>j<i. evs ! j = RegistryDelete s))"

text \<open>
  Every occurrence of \<open>b\<close> in a list of events comes after an occurrence of \<open>a\<close>.
\<close>

definition precedes :: "event \<Rightarrow> event \<Rightarrow> event list \<Rightarrow> bool" where
  "precedes a b evs = (\<forall>i<length evs. evs ! i = b \<longrightarrow> (\<exists>j<i. evs ! j = a))"

text \<open>Two worlds that differ at most in the registry and the trace.\<close>

definition same_disk :: "world \<Rightarrow> world \<Rightarrow> bool" where
  "same_disk w w' =
     (tokensDir w' = tokensDir w \<and> userDataDir w' = userDataDir w \<and>
      backupFolder w' = backupFolder w \<and> backupZip w' = backupZip w \<and>
      restoreDir w' = restoreDir w \<and> extracting w' = extracting w \<and> response w' = response w)"

text \<open>The events of \<open>closeAllSessions\<close>.\<close>

fun teardown_event :: "event \<Rightarrow> bool" where
  "teardown_event (Log l m) = True"
| "teardown_event (RegistryDelete s) = True"
| "teardown_event (BrowserClose s) = True"
| "teardown_event GraceElapsed = True"
| "teardown_event ev = False"

text \<open>
  A list of teardown events that keeps \<open>removal_precedes_close\<close> when it is appended.
\<close>

definition td_ext :: "event list \<Rightarrow> bool" where
  "td_ext evs =
     ((\<forall>ev \<in> set evs. teardown_event ev) \<and>
      (\<forall>acc. removal_precedes_close acc \<longrightarrow> removal_precedes_close (acc @ evs)))"

text \<open>
  The file a merge leaves at a path, from the file the source has there and the file the
  destination had there: the destination's file stays unless \<open>force\<close> is set.
\<close>

definition merged :: "bool \<Rightarrow> bytes option \<Rightarrow> bytes option \<Rightarrow> bytes option" where
  "merged force s d =
     (case s of
        None \<Rightarrow> d
      | Some b \<Rightarrow> (case d of None \<Rightarrow> Some b | Some b' \<Rightarrow> Some (if force then b else b')))"

text \<open>
  \<open>deleteAllSessions\<close> in three steps: the world when the sessions are closed and the
  clearing of the User Data Tree is announced, the world when that phase is over and the
  clearing of the Token Store is announced, and the acknowledgment of a full success.
\<close>

definition teardown_done :: "env \<Rightarrow> world \<Rightarrow> world" where
  "teardown_done e w =
     emit (Log Info (''Attempting to clear session directory: '' @ sessionDirPath e))
       (emit (Log Info ''All active browser sessions closed.'')
          (closeAllSessions e (emit (Log Info ''Attempting to delete all sessions...'') w)))"

definition userdata_done :: "env \<Rightarrow> world \<Rightarrow> world" where
  "userdata_done e w =
     emit (Log Info (''Attempting to clear tokens directory: '' @ tokensDirPath e))
       (clear_userdata e (teardown_done e w))"

definition cleared :: ack where
  "cleared = \<lparr>success = True, message = Some ''All sessions closed and data/tokens cleared.''\<rparr>"

subsection \<open>An example deployment\<close>

text \<open>
  Two sessions are live, \<open>a\<close> whose browser throws when it is closed and \<open>b\<close>
  whose browser closes. The Token Store holds a token file and a stray directory, the
  User Data Tree a profile directory and a file.
\<close>

definition example_env :: env where
  "example_env =
     \<lparr>getAllTokens = [''a'', ''b''], sessionDirPath = ''/srv/userDataDir'',
      tokensDirPath = ''/srv/tokens'', readdir_fails = (\<lambda>pl. False),
      lstat_fails = (\<lambda>pl item. False), rm_fails = (\<lambda>item. False),
      unlink_fails = (\<lambda>pl item. False), archive_error = None,
      staging_rm_fails = False, stream_error = None, delivered_before_error = 0,
      extract_makes_dirs = False\<rparr>"

definition example_world :: world where
  "example_world =
     \<lparr>clientsArray = [''a'' \<mapsto> \<lparr>status = True, browser_close = CloseThrows\<rparr>,
                      ''b'' \<mapsto> \<lparr>status = True, browser_close = CloseResolves\<rparr>],
      tokensDir = Some (Dir [(''a.data.json'', File ''A''), (''sub'', Dir [(''x'', File ''X'')])]),
      userDataDir =
        Some (Dir [(''profile'', Dir [(''cookies.bin'', File ''C'')]), (''f'', File ''F'')]),
      backupFolder = None, backupZip = None, restoreDir = None, extracting = None,
      response = None, trace = []\<rparr>"

text \<open>
  An upload declared as a zip archive, with a \<open>tokens\<close> and a \<open>userDataDir\<close>
  entry; and an environment in which the read stream of \<open>backupSessions\<close> fails.
\<close>

definition example_upload :: "upload option" where
  "example_upload =
     Some \<lparr>mimetype = Some ''application/zip'',
           content = Zip [(''tokens'', Dir [(''a.data.json'', File ''A2'')]),
                          (''userDataDir'', Dir [(''f'', File ''F2''), (''g'', File ''G2'')])]\<rparr>"

definition failing_stream_env :: env where
  "failing_stream_env =
     example_env\<lparr>stream_error := Some ''EIO'', delivered_before_error := 1\<rparr>"

text \<open>
  Environments with one fault each: the token file cannot be unlinked, the token file
  cannot be examined, the profile directory cannot be removed, the User Data Tree cannot
  be enumerated.
\<close>

definition busy_token_env :: env where
  "busy_token_env =
     example_env\<lparr>unlink_fails := (\<lambda>pl item. pl = Tokens \<and> item = ''a.data.json'')\<rparr>"

definition unreadable_token_env :: env where
  "unreadable_token_env =
     example_env\<lparr>lstat_fails := (\<lambda>pl item. pl = Tokens \<and> item = ''a.data.json'')\<rparr>"

definition busy_profile_env :: env where
  "busy_profile_env = example_env\<lparr>rm_fails := (\<lambda>item. item = ''profile'')\<rparr>"

definition unreadable_userdata_env :: env where
  "unreadable_userdata_env = example_env\<lparr>readdir_fails := (\<lambda>pl. pl = UserData)\<rparr>"

text \<open>
  A Token Store with a directory \<open>a\<close> and a token file, and an upload whose
  \<open>tokens\<close> entry has a file \<open>a\<close> and a newer version of the token file.
\<close>

definition conflict_world :: world where
  "conflict_world =
     example_world\<lparr>tokensDir := Some (Dir [(''a'', Dir []), (''b.json'', File ''old'')])\<rparr>"

definition conflict_upload :: "upload option" where
  "conflict_upload =
     Some \<lparr>mimetype = Some ''application/zip'',
           content = Zip [(''tokens'', Dir [(''a'', File ''x''), (''b.json'', File ''new'')])]\<rparr>"

text \<open>
  The archive that \<open>backupSessions\<close> makes of the example deployment, a deployment with
  nothing in its stores, and the upload of that archive.
\<close>

definition example_archive :: archive where
  "example_archive =
     [(''tokens'', Dir [(''a.data.json'', File ''A''), (''sub'', Dir [(''x'', File ''X'')])]),
      (''userDataDir'',
       Dir [(''profile'', Dir [(''cookies.bin'', File ''C'')]), (''f'', File ''F'')])]"



text \<open>
  The example deployment without a \<open>tokens\<close> directory. Two deployments with nothing
  in their stores in which an earlier import has left an extraction directory: one that
  holds a token file of the earlier archive, one in which \<open>tokens\<close> is a file.
\<close>

definition tokenless_world :: world where
  "tokenless_world = example_world\<lparr>tokensDir := None\<rparr>"



section \<open>Properties\<close>

subsection \<open>Emitting events and deleting registry entries\<close>

lemma emit_simps [simp]:
  "clientsArray (emit ev w) = clientsArray w"
  "tokensDir (emit ev w) = tokensDir w"
  "userDataDir (emit ev w) = userDataDir w"
  "backupFolder (emit ev w) = backupFolder w"
  "backupZip (emit ev w) = backupZip w"
  "restoreDir (emit ev w) = restoreDir w"
  "extracting (emit ev w) = extracting w"
  "response (emit ev w) = response w"
  "trace (emit ev w) = trace w @ [ev]"
  by (simp_all add: emit_def)

lemma delete_client_simps [simp]:
  "clientsArray (delete_client s w) = (clientsArray w)(s := None)"
  "tokensDir (delete_client s w) = tokensDir w"
  "userDataDir (delete_client s w) = userDataDir w"
  "backupFolder (delete_client s w) = backupFolder w"
  "backupZip (delete_client s w) = backupZip w"
  "restoreDir (delete_client s w) = restoreDir w"
  "extracting (delete_client s w) = extracting w"
  "response (delete_client s w) = response w"
  "trace (delete_client s w) = trace w @ [RegistryDelete s]"
  by (simp_all add: delete_client_def)

text \<open>closeAllSessions touches only the registry and the trace\<close>

subsection \<open>closeAllSessions changes the registry and the trace only\<close>

lemma close_session_disk: "same_disk w (fst (close_session (w, p) s))"
  by (simp add: same_disk_def Let_def split: close_outcome.splits)

lemma same_disk_refl: "same_disk w w"
  by (simp add: same_disk_def)

lemma same_disk_trans: "same_disk a b \<Longrightarrow> same_disk b c \<Longrightarrow> same_disk a c"
  by (simp add: same_disk_def)

lemma foldl_close_session_disk: "same_disk w (fst (foldl close_session (w, p) names))"
proof (induction names arbitrary: w p)
  case Nil
  show ?case by (simp add: same_disk_refl)
next
  case (Cons s names)
  obtain w' p' where step: "close_session (w, p) s = (w', p')"
    by (cases "close_session (w, p) s")
  have "same_disk w w'" using close_session_disk [of w p s] step by simp
  moreover have "same_disk w' (fst (foldl close_session (w', p') names))" by (rule Cons.IH)
  ultimately show ?case using step by (simp add: same_disk_def)
qed

lemma settle_disk: "same_disk w (settle w sp)"
  by (cases "(w, sp)" rule: settle.cases) (simp_all add: same_disk_def)

lemma foldl_settle_disk: "same_disk w (foldl settle w ps)"
proof (induction ps arbitrary: w)
  case Nil
  show ?case by (simp add: same_disk_refl)
next
  case (Cons sp ps)
  from settle_disk [of w sp] Cons.IH [of "settle w sp"]
  show ?case by (simp add: same_disk_def)
qed

lemma closeAllSessions_disk: "same_disk w (closeAllSessions e w)"
proof -
  obtain w1 p where f: "foldl close_session (w, []) (getAllTokens e) = (w1, p)"
    by (cases "foldl close_session (w, []) (getAllTokens e)")
  have a: "same_disk w w1" using foldl_close_session_disk [of w "[]" "getAllTokens e"] f by simp
  have b: "same_disk w1 (foldl settle w1 p)" by (rule foldl_settle_disk)
  have "closeAllSessions e w = emit GraceElapsed (foldl settle w1 p)"
    using f by (simp add: closeAllSessions_def)
  with a b show ?thesis by (simp add: same_disk_def)
qed

lemma closeAllSessions_simps [simp]:
  "tokensDir (closeAllSessions e w) = tokensDir w"
  "userDataDir (closeAllSessions e w) = userDataDir w"
  "backupFolder (closeAllSessions e w) = backupFolder w"
  "backupZip (closeAllSessions e w) = backupZip w"
  "restoreDir (closeAllSessions e w) = restoreDir w"
  "extracting (closeAllSessions e w) = extracting w"
  "response (closeAllSessions e w) = response w"
  using closeAllSessions_disk [of w e] by (simp_all add: same_disk_def)

subsection \<open>The registry after closeAllSessions\<close>

lemma close_session_registry:
  "clientsArray (fst (close_session (w, p) s)) = (clientsArray w)(s := None)"
  by (simp add: Let_def split: close_outcome.splits)

lemma foldl_close_session_registry:
  "clientsArray (fst (foldl close_session (w, p) names)) x =
     (if x \<in> set names then None else clientsArray w x)"
proof (induction names arbitrary: w p)
  case Nil
  then show ?case by simp
next
  case (Cons s names)
  obtain w' p' where step: "close_session (w, p) s = (w', p')"
    by (cases "close_session (w, p) s")
  have "clientsArray w' = (clientsArray w)(s := None)"
    using close_session_registry [of w p s] step by simp
  then show ?case using Cons.IH [of w' p'] step by simp
qed

lemma settle_registry:
  "clientsArray w x = None \<Longrightarrow> clientsArray (settle w sp) x = None"
  by (cases "(w, sp)" rule: settle.cases) simp_all

lemma foldl_settle_registry:
  "clientsArray w x = None \<Longrightarrow> clientsArray (foldl settle w ps) x = None"
  by (induction ps arbitrary: w) (simp_all add: settle_registry)

lemma closeAllSessions_registry:
  "x \<in> set (getAllTokens e) \<Longrightarrow> clientsArray (closeAllSessions e w) x = None"
  by (simp add: closeAllSessions_def Let_def split: prod.splits)
     (metis foldl_close_session_registry foldl_settle_registry fst_conv)

subsection \<open>The order of removal and close request\<close>

lemma rpc_Nil: "removal_precedes_close []"
  by (simp add: removal_precedes_close_def)

lemma rpc_snoc_other:
  assumes "removal_precedes_close evs" and "\<And>s. ev \<noteq> BrowserClose s"
  shows "removal_precedes_close (evs @ [ev])"
  unfolding removal_precedes_close_def
proof (intro allI impI)
  fix i s
  assume i: "i < length (evs @ [ev])" and c: "(evs @ [ev]) ! i = BrowserClose s"
  from i c assms(2) have lt: "i < length evs"
    by (cases "i = length evs") (auto simp: nth_append)
  with c have "evs ! i = BrowserClose s" by (simp add: nth_append)
  with assms(1) lt obtain j where j: "j < i" "evs ! j = RegistryDelete s"
    unfolding removal_precedes_close_def by blast
  from j(1) lt have "(evs @ [ev]) ! j = evs ! j" by (simp add: nth_append)
  with j show "\<exists>j<i. (evs @ [ev]) ! j = RegistryDelete s" by metis
qed

lemma rpc_snoc_close:
  assumes "removal_precedes_close evs" and "RegistryDelete s \<in> set evs"
  shows "removal_precedes_close (evs @ [BrowserClose s])"
  unfolding removal_precedes_close_def
proof (intro allI impI)
  fix i s'
  assume i: "i < length (evs @ [BrowserClose s])"
    and c: "(evs @ [BrowserClose s]) ! i = BrowserClose s'"
  show "\<exists>j<i. (evs @ [BrowserClose s]) ! j = RegistryDelete s'"
  proof (cases "i < length evs")
    case True
    with c have "evs ! i = BrowserClose s'" by (simp add: nth_append)
    with assms(1) True obtain j where j: "j < i" "evs ! j = RegistryDelete s'"
      unfolding removal_precedes_close_def by blast
    from j(1) True have "(evs @ [BrowserClose s]) ! j = evs ! j" by (simp add: nth_append)
    with j show ?thesis by metis
  next
    case False
    with i have ie: "i = length evs" by simp
    with c have "s' = s" by simp
    from assms(2) obtain j where j: "j < length evs" "evs ! j = RegistryDelete s"
      by (auto simp: in_set_conv_nth)
    from j(1) have "(evs @ [BrowserClose s]) ! j = evs ! j" by (simp add: nth_append)
    with j ie \<open>s' = s\<close> show ?thesis by metis
  qed
qed

lemma td_ext_Nil: "td_ext []"
  by (simp add: td_ext_def)

lemma td_ext_append: "td_ext a \<Longrightarrow> td_ext b \<Longrightarrow> td_ext (a @ b)"
  unfolding td_ext_def by (simp only: set_append Un_iff append_assoc [symmetric]) blast

lemma td_ext_single:
  "teardown_event ev \<Longrightarrow> (\<And>s. ev \<noteq> BrowserClose s) \<Longrightarrow> td_ext [ev]"
  unfolding td_ext_def by (simp add: rpc_snoc_other)

lemma td_ext_close: "td_ext [RegistryDelete s, Log l m, BrowserClose s]"
  unfolding td_ext_def
proof (intro conjI allI impI)
  fix acc assume a: "removal_precedes_close acc"
  have "removal_precedes_close ((acc @ [RegistryDelete s]) @ [Log l m])"
    by (intro rpc_snoc_other a) simp_all
  then have "removal_precedes_close (((acc @ [RegistryDelete s]) @ [Log l m]) @ [BrowserClose s])"
    by (rule rpc_snoc_close) simp
  then show "removal_precedes_close (acc @ [RegistryDelete s, Log l m, BrowserClose s])"
    by simp
qed simp

lemma close_session_trace:
  "\<exists>evs. trace (fst (close_session (w, p) s)) = trace w @ evs \<and> td_ext evs"
proof (cases "status_truthy (clientsArray w s)")
  case False
  have "td_ext ([RegistryDelete s] @ [RegistryDelete s])"
    by (intro td_ext_append td_ext_single) simp_all
  with False show ?thesis by (simp add: Let_def)
next
  case True
  have a: "td_ext [RegistryDelete s, Log Info (''Stopping session: '' @ s), BrowserClose s]"
    by (rule td_ext_close)
  have "td_ext ([RegistryDelete s, Log Info (''Stopping session: '' @ s), BrowserClose s]
                 @ [Log Err (''Error stopping session: '' @ s)])"
    by (intro td_ext_append a td_ext_single) simp_all
  with a True show ?thesis by (simp add: Let_def split: close_outcome.splits)
qed

lemma foldl_close_session_trace:
  "\<exists>evs. trace (fst (foldl close_session (w, p) names)) = trace w @ evs \<and> td_ext evs"
proof (induction names arbitrary: w p)
  case Nil
  show ?case by (simp add: td_ext_Nil)
next
  case (Cons s names)
  obtain w' p' where step: "close_session (w, p) s = (w', p')"
    by (cases "close_session (w, p) s")
  from close_session_trace [of w p s] step
  obtain a where a: "trace w' = trace w @ a" "td_ext a" by auto
  from Cons.IH [of w' p']
  obtain b where b: "trace (fst (foldl close_session (w', p') names)) = trace w' @ b" "td_ext b"
    by auto
  have "trace (fst (foldl close_session (w, p) (s # names))) = trace w @ (a @ b)"
    using a(1) b(1) step by simp
  moreover have "td_ext (a @ b)" using a(2) b(2) by (rule td_ext_append)
  ultimately show ?case by blast
qed

lemma settle_trace: "\<exists>evs. trace (settle w sp) = trace w @ evs \<and> td_ext evs"
proof -
  obtain session outcome where sp: "sp = (session, outcome)" by (cases sp)
  show ?thesis
  proof (cases outcome)
    case CloseResolves
    have "td_ext [RegistryDelete session]" by (rule td_ext_single) simp_all
    with sp CloseResolves show ?thesis by simp
  next
    case CloseRejects
    have "td_ext [Log Err (''Error stopping session: '' @ session)]"
      by (rule td_ext_single) simp_all
    with sp CloseRejects show ?thesis by simp
  next
    case CloseThrows
    with sp td_ext_Nil show ?thesis by simp
  next
    case CloseOutstanding
    with sp td_ext_Nil show ?thesis by simp
  qed
qed

lemma foldl_settle_trace: "\<exists>evs. trace (foldl settle w ps) = trace w @ evs \<and> td_ext evs"
proof (induction ps arbitrary: w)
  case Nil
  show ?case by (simp add: td_ext_Nil)
next
  case (Cons sp ps)
  from settle_trace [of w sp]
  obtain a where a: "trace (settle w sp) = trace w @ a" "td_ext a" by auto
  from Cons.IH [of "settle w sp"]
  obtain b where b: "trace (foldl settle (settle w sp) ps) = trace (settle w sp) @ b" "td_ext b"
    by auto
  have "trace (foldl settle w (sp # ps)) = trace w @ (a @ b)"
    using a(1) b(1) by simp
  moreover have "td_ext (a @ b)" using a(2) b(2) by (rule td_ext_append)
  ultimately show ?case by blast
qed

lemma closeAllSessions_trace:
  "\<exists>evs. trace (closeAllSessions e w) = trace w @ evs \<and> td_ext evs"
proof -
  obtain w1 p where f: "foldl close_session (w, []) (getAllTokens e) = (w1, p)"
    by (cases "foldl close_session (w, []) (getAllTokens e)")
  from foldl_close_session_trace [of w "[]" "getAllTokens e"] f
  obtain a where a: "trace w1 = trace w @ a" "td_ext a" by auto
  from foldl_settle_trace [of w1 p]
  obtain b where b: "trace (foldl settle w1 p) = trace w1 @ b" "td_ext b" by auto
  have c: "td_ext [GraceElapsed]" by (rule td_ext_single) simp_all
  have d: "td_ext ((a @ b) @ [GraceElapsed])"
    by (intro td_ext_append a b c)
  have "closeAllSessions e w = emit GraceElapsed (foldl settle w1 p)"
    using f by (simp add: closeAllSessions_def)
  then have "trace (closeAllSessions e w) = trace w @ ((a @ b) @ [GraceElapsed])"
    using a(1) b(1) by simp
  with d show ?thesis by blast
qed

subsection \<open>Order of events\<close>

lemma new_events_append: "trace w' = trace w @ evs \<Longrightarrow> new_events w w' = evs"
  by (simp add: new_events_def)

lemma precedes_absent: "b \<notin> set evs \<Longrightarrow> precedes a b evs"
  unfolding precedes_def by (metis nth_mem)

lemma precedes_after:
  assumes "b \<notin> set pre" and "a \<noteq> b"
  shows "precedes a b (pre @ a # post)"
  unfolding precedes_def
proof (intro allI impI)
  fix i
  assume i: "i < length (pre @ a # post)" and b: "(pre @ a # post) ! i = b"
  have "\<not> i < length pre"
  proof
    assume "i < length pre"
    then have "(pre @ a # post) ! i = pre ! i" "pre ! i \<in> set pre"
      by (simp_all add: nth_append)
    with b assms(1) show False by simp
  qed
  moreover have "i \<noteq> length pre" using b assms(2) by auto
  ultimately have "length pre < i" by simp
  moreover have "(pre @ a # post) ! length pre = a" by simp
  ultimately show "\<exists>j<i. (pre @ a # post) ! j = a" by blast
qed

lemma precedes_Nil [simp]: "precedes a b []"
  by (simp add: precedes_def)

lemma precedes_Cons:
  assumes "a \<noteq> b"
  shows "precedes a b (x # xs) = (x \<noteq> b \<and> (x = a \<or> precedes a b xs))"
proof (cases "x = b")
  case True
  then have "\<not> precedes a b (x # xs)"
    unfolding precedes_def by (auto intro!: exI [of _ 0])
  with True show ?thesis by simp
next
  case xb: False
  show ?thesis
  proof (cases "x = a")
    case True
    have "precedes a b (x # xs)"
      unfolding precedes_def
    proof (intro allI impI)
      fix i assume "i < length (x # xs)" "(x # xs) ! i = b"
      with True assms have "0 < i" by (cases i) auto
      with True show "\<exists>j<i. (x # xs) ! j = a" by (intro exI [of _ 0]) simp
    qed
    with True xb show ?thesis by simp
  next
    case xa: False
    have "precedes a b (x # xs) = precedes a b xs"
    proof
      assume p: "precedes a b (x # xs)"
      show "precedes a b xs"
        unfolding precedes_def
      proof (intro allI impI)
        fix i assume i: "i < length xs" "xs ! i = b"
        then have "Suc i < length (x # xs)" "(x # xs) ! Suc i = b" by simp_all
        with p obtain j where j: "j < Suc i" "(x # xs) ! j = a"
          unfolding precedes_def by blast
        with xa obtain k where "j = Suc k" by (cases j) auto
        with j show "\<exists>j<i. xs ! j = a" by auto
      qed
    next
      assume p: "precedes a b xs"
      show "precedes a b (x # xs)"
        unfolding precedes_def
      proof (intro allI impI)
        fix i assume i: "i < length (x # xs)" "(x # xs) ! i = b"
        with xb obtain k where k: "i = Suc k" by (cases i) auto
        with i have "k < length xs" "xs ! k = b" by simp_all
        with p obtain j where "j < k" "xs ! j = a" unfolding precedes_def by blast
        then have "Suc j < i" "(x # xs) ! Suc j = a" using k by simp_all
        then show "\<exists>j<i. (x # xs) ! j = a" by blast
      qed
    qed
    with xa xb show ?thesis by simp
  qed
qed

lemma precedes_append_absent:
  assumes "a \<noteq> b" and "a \<notin> set pre" and "b \<notin> set pre"
  shows "precedes a b (pre @ xs) = precedes a b xs"
  using assms(2,3) by (induction pre) (auto simp: precedes_Cons [OF assms(1)])

lemma closeAllSessions_events:
  "\<exists>td. trace (closeAllSessions e w) = trace w @ td \<and> (\<forall>ev \<in> set td. teardown_event ev)"
  using closeAllSessions_trace [of e w] unfolding td_ext_def by blast

lemma teardown_free:
  assumes "\<forall>ev \<in> set td. teardown_event ev"
  shows "ArchiveStarted \<notin> set td" "OutputClosed \<notin> set td" "StagingRemoved \<notin> set td"
    "StreamStarted \<notin> set td" "StreamEnded \<notin> set td" "StartAllSessions \<notin> set td"
    "ResponseEnded \<notin> set td" "Reject \<notin> set td" "Returned \<notin> set td"
    "ExtractClosed \<notin> set td"
  using assms by auto

lemma teardown_count:
  assumes "\<forall>ev \<in> set td. teardown_event ev"
  shows "count_list td ArchiveStarted = 0" "count_list td StreamStarted = 0"
    "count_list td StartAllSessions = 0"
  using teardown_free [OF assms] by (simp_all add: count_list_0_iff)

subsection \<open>Teardown drains the registry\<close>

text \<open>
  C2. Whatever the registry holds and whatever each \<open>close()\<close> does (throw, reject,
  resolve or stay outstanding), after \<open>closeAllSessions\<close> the registry has no entry
  for any identifier that \<open>getAllTokens\<close> listed; and among the events of the call,
  every close request for a session comes after the removal of that session's entry.
\<close>

theorem closeAllSessions_drains_registry:
  "(\<forall>s \<in> set (getAllTokens e). clientsArray (closeAllSessions e w) s = None) \<and>
   removal_precedes_close (new_events w (closeAllSessions e w))"
proof -
  from closeAllSessions_trace [of e w]
  obtain evs where evs: "trace (closeAllSessions e w) = trace w @ evs" "td_ext evs" by auto
  from evs(2) rpc_Nil have "removal_precedes_close ([] @ evs)"
    unfolding td_ext_def by blast
  with evs(1) show ?thesis
    by (simp add: new_events_def closeAllSessions_registry)
qed

theorem closeAllSessions_drains_registry_witness:
  "''a'' \<in> set (getAllTokens example_env) \<and>
   clientsArray example_world ''a'' = Some \<lparr>status = True, browser_close = CloseThrows\<rparr> \<and>
   clientsArray (closeAllSessions example_env example_world) ''a'' = None \<and>
   clientsArray (closeAllSessions example_env example_world) ''b'' = None \<and>
   removal_precedes_close (new_events example_world (closeAllSessions example_env example_world)) \<and>
   new_events example_world (closeAllSessions example_env example_world) =
     [RegistryDelete ''a'', Log Info ''Stopping session: a'', BrowserClose ''a'',
      Log Err ''Error stopping session: a'',
      RegistryDelete ''b'', Log Info ''Stopping session: b'', BrowserClose ''b'',
      RegistryDelete ''b'', GraceElapsed]"
  using closeAllSessions_drains_registry [of example_env example_world]
  by (simp add: example_env_def example_world_def closeAllSessions_def new_events_def
        status_truthy_def)

subsection \<open>Validation of the upload\<close>

text \<open>
  C3. When the declared content type of the upload does not contain \<open>zip\<close> (or there
  is no upload, or no content type), \<open>restoreSessions\<close> throws
  \<open>Please, send zipped file\<close> and the world is the one it was called in: no session
  is torn down, the registry, every directory and the trace are unchanged.
\<close>

theorem restoreSessions_rejects_non_zip:
  "\<not> declares_zip file \<Longrightarrow>
     restoreSessions e w file = (Inl (Error ''Please, send zipped file''), w)"
  by (simp add: restoreSessions_def)

theorem restoreSessions_rejects_non_zip_witness:
  "\<not> declares_zip (Some \<lparr>mimetype = Some ''text/plain'', content = Garbage\<rparr>) \<and>
   restoreSessions example_env example_world
       (Some \<lparr>mimetype = Some ''text/plain'', content = Garbage\<rparr>)
     = (Inl (Error ''Please, send zipped file''), example_world)"
proof -
  have no_zip: "\<not> declares_zip (Some \<lparr>mimetype = Some ''text/plain'', content = Garbage\<rparr>)"
    by (simp add: declares_zip_def)
  from restoreSessions_rejects_non_zip [OF no_zip, of example_env example_world] no_zip
  show ?thesis by simp
qed

subsection \<open>The events of restoreSessions up to its return\<close>

lemma restoreSessions_accepts:
  assumes "declares_zip file"
  shows "restoreSessions e w file =
           (Inr \<lparr>success = True, message = None\<rparr>,
            emit Returned
              ((closeAllSessions e (emit (Log Info ''Starting restore sessions...'') w))
                 \<lparr>extracting := Some (content (the file))\<rparr>))"
  using assms by (simp add: restoreSessions_def Let_def)

lemma restoreSessions_events:
  assumes "declares_zip file"
  shows "\<exists>pre. trace (snd (restoreSessions e w file)) = trace w @ pre @ [Returned] \<and>
               (\<forall>ev \<in> set pre. teardown_event ev)"
proof -
  let ?w1 = "emit (Log Info ''Starting restore sessions...'') w"
  from closeAllSessions_events [of e ?w1]
  obtain td where td: "trace (closeAllSessions e ?w1) = trace ?w1 @ td"
    "\<forall>ev \<in> set td. teardown_event ev" by blast
  have "trace (snd (restoreSessions e w file))
          = trace w @ (Log Info ''Starting restore sessions...'' # td) @ [Returned]"
    using td(1) by (simp add: restoreSessions_accepts [OF assms])
  moreover have "\<forall>ev \<in> set (Log Info ''Starting restore sessions...'' # td). teardown_event ev"
    using td(2) by simp
  ultimately show ?thesis by blast
qed

subsection \<open>The runs of backupSessions\<close>

lemma on_output_close_cases:
  obtains
    (rm_throws) "staging_rm_fails e" "on_output_close e w = (Pending, w)"
  | (stream_fails) msg w' where "stream_error e = Some msg"
      "on_output_close e w = (RejectedP, w')"
      "trace w' = trace w @ [StagingRemoved, StreamStarted, Console msg, Reject]"
      "backupZip w' = backupZip w"
      "response w' = map_option (take (delivered_before_error e)) (backupZip w)"
  | (completed) w' where
      "\<not> staging_rm_fails e" "stream_error e = None"
      "on_output_close e w = (Pending, w')"
      "trace w' = trace w @ [StagingRemoved, StreamStarted, StreamEnded, ResponseEnded,
         Log Info ''Sessions successfully backuped. Restarting sessions...'',
         StartAllSessions, ResponseEnded]"
      "backupZip w' = backupZip w" "response w' = backupZip w" "tokensDir w' = tokensDir w"
      "userDataDir w' = userDataDir w" "backupFolder w' = None"
proof (cases "staging_rm_fails e")
  case True
  then show ?thesis by (intro rm_throws) (simp_all add: on_output_close_def)
next
  case False
  show ?thesis
  proof (cases "stream_error e")
    case (Some msg)
    with False show ?thesis
      by (intro stream_fails [of msg "snd (on_output_close e w)"])
         (simp_all add: on_output_close_def Let_def)
  next
    case None
    with False show ?thesis
      by (intro completed [of "snd (on_output_close e w)"])
         (simp_all add: on_output_close_def Let_def)
  qed
qed

text \<open>
  The runs of \<open>backupSessions\<close>: the staging copy throws; the archiver emits an
  error; removing the staging directory throws; the read stream emits an error; the
  read stream ends.
\<close>

lemma backupSessions_cases:
  obtains
    (copy_throws) td where "\<forall>ev \<in> set td. teardown_event ev"
      "fst (backupSessions e w) = Pending"
      "trace (snd (backupSessions e w)) = trace w @ td"
  | (archive_fails) td msg where "\<forall>ev \<in> set td. teardown_event ev"
      "fst (backupSessions e w) = RejectedP"
      "trace (snd (backupSessions e w)) = trace w @ td @ [ArchiveStarted, Reject, Log Err msg]"
  | (rm_throws) td where "\<forall>ev \<in> set td. teardown_event ev"
      "fst (backupSessions e w) = Pending"
      "trace (snd (backupSessions e w)) = trace w @ td @ [ArchiveStarted, OutputClosed]"
  | (stream_fails) td msg where "\<forall>ev \<in> set td. teardown_event ev"
      "fst (backupSessions e w) = RejectedP"
      "trace (snd (backupSessions e w)) = trace w @ td @
         [ArchiveStarted, OutputClosed, StagingRemoved, StreamStarted, Console msg, Reject]"
  | (completed) td bf where "\<forall>ev \<in> set td. teardown_event ev"
      "fst (backupSessions e w) = Pending"
      "trace (snd (backupSessions e w)) = trace w @ td @
         [ArchiveStarted, OutputClosed, StagingRemoved, StreamStarted, StreamEnded,
          ResponseEnded, Log Info ''Sessions successfully backuped. Restarting sessions...'',
          StartAllSessions, ResponseEnded]"
      "cpSync True (userDataDir w) (backupFolder w) = (bf, True)"
      "backupZip (snd (backupSessions e w))
         = Some (archive_directory ''tokens'' (tokensDir w) @
                 archive_directory ''userDataDir'' bf)"
      "response (snd (backupSessions e w))
         = Some (archive_directory ''tokens'' (tokensDir w) @
                 archive_directory ''userDataDir'' bf)"
      "tokensDir (snd (backupSessions e w)) = tokensDir w"
      "userDataDir (snd (backupSessions e w)) = userDataDir w"
      "backupFolder (snd (backupSessions e w)) = None"
      "archive_error e = None" "\<not> staging_rm_fails e" "stream_error e = None"
proof -
  let ?w1 = "closeAllSessions e w"
  from closeAllSessions_events [of e w]
  obtain td where td: "trace ?w1 = trace w @ td" "\<forall>ev \<in> set td. teardown_event ev" by blast
  obtain bf ok where cp: "cpSync True (userDataDir w) (backupFolder w) = (bf, ok)"
    by (cases "cpSync True (userDataDir w) (backupFolder w)")
  let ?w3 = "?w1\<lparr>backupZip := Some [], backupFolder := bf\<rparr>"
  let ?w4 = "emit ArchiveStarted ?w3"
  show ?thesis
  proof (cases ok)
    case False
    with cp td show ?thesis
      by (intro copy_throws [of td]) (simp_all add: backupSessions_def Let_def)
  next
    case True
    note ok = this
    show ?thesis
    proof (cases "archive_error e")
      case (Some msg)
      with cp ok td show ?thesis
        by (intro archive_fails [of td msg]) (simp_all add: backupSessions_def Let_def)
    next
      case None
      note no_err = this
      let ?zip = "archive_directory ''tokens'' (tokensDir w) @ archive_directory ''userDataDir'' bf"
      let ?w5 = "emit OutputClosed (?w4\<lparr>backupZip := Some ?zip\<rparr>)"
      have run: "backupSessions e w = on_output_close e ?w5"
        using cp ok no_err by (simp add: backupSessions_def Let_def)
      have tr5: "trace ?w5 = trace w @ td @ [ArchiveStarted, OutputClosed]"
        using td(1) by simp
      show ?thesis
      proof (cases e ?w5 rule: on_output_close_cases)
        case rm_throws
        with run tr5 td(2) show ?thesis
          by (intro that(3) [of td]) simp_all
      next
        case (stream_fails msg w')
        with run tr5 td(2) show ?thesis
          by (intro that(4) [of td msg]) simp_all
      next
        case (completed w')
        with run tr5 td(2) cp ok no_err show ?thesis
          by (intro that(5) [of td bf]) simp_all
      qed
    qed
  qed
qed

lemma tokenless_backup_run:
  "new_events tokenless_world (snd (backupSessions example_env tokenless_world))
     = [RegistryDelete ''a'', Log Info ''Stopping session: a'', BrowserClose ''a'',
        Log Err ''Error stopping session: a'',
        RegistryDelete ''b'', Log Info ''Stopping session: b'', BrowserClose ''b'',
        RegistryDelete ''b'', GraceElapsed,
        ArchiveStarted, OutputClosed, StagingRemoved, StreamStarted, StreamEnded,
        ResponseEnded, Log Info ''Sessions successfully backuped. Restarting sessions...'',
        StartAllSessions, ResponseEnded]"
  "fst (backupSessions example_env tokenless_world) = Pending"
  "response (snd (backupSessions example_env tokenless_world))
     = Some [(''userDataDir'',
              Dir [(''profile'', Dir [(''cookies.bin'', File ''C'')]), (''f'', File ''F'')])]"
  "backupZip (snd (backupSessions example_env tokenless_world))
     = Some [(''userDataDir'',
              Dir [(''profile'', Dir [(''cookies.bin'', File ''C'')]), (''f'', File ''F'')])]"
  by (simp_all add: tokenless_world_def example_env_def example_world_def backupSessions_def
        on_output_close_def archive_directory_def closeAllSessions_def new_events_def
        status_truthy_def cpSync_def Let_def)

lemma example_backup_run:
  "new_events example_world (snd (backupSessions example_env example_world))
     = [RegistryDelete ''a'', Log Info ''Stopping session: a'', BrowserClose ''a'',
        Log Err ''Error stopping session: a'',
        RegistryDelete ''b'', Log Info ''Stopping session: b'', BrowserClose ''b'',
        RegistryDelete ''b'', GraceElapsed,
        ArchiveStarted, OutputClosed, StagingRemoved, StreamStarted, StreamEnded,
        ResponseEnded, Log Info ''Sessions successfully backuped. Restarting sessions...'',
        StartAllSessions, ResponseEnded]"
  "fst (backupSessions example_env example_world) = Pending"
  "response (snd (backupSessions example_env example_world)) = Some example_archive"
  "backupZip (snd (backupSessions example_env example_world)) = Some example_archive"
  "backupFolder (snd (backupSessions example_env example_world)) = None"
  by (simp_all add: example_env_def example_world_def example_archive_def backupSessions_def
        on_output_close_def archive_directory_def closeAllSessions_def new_events_def
        status_truthy_def cpSync_def Let_def)

lemma failing_stream_backup_run:
  "new_events example_world (snd (backupSessions failing_stream_env example_world))
     = [RegistryDelete ''a'', Log Info ''Stopping session: a'', BrowserClose ''a'',
        Log Err ''Error stopping session: a'',
        RegistryDelete ''b'', Log Info ''Stopping session: b'', BrowserClose ''b'',
        RegistryDelete ''b'', GraceElapsed,
        ArchiveStarted, OutputClosed, StagingRemoved, StreamStarted, Console ''EIO'', Reject]"
  "fst (backupSessions failing_stream_env example_world) = RejectedP"
  "response (snd (backupSessions failing_stream_env example_world))
     = Some [(''tokens'', Dir [(''a.data.json'', File ''A''), (''sub'', Dir [(''x'', File ''X'')])])]"
  by (simp_all add: failing_stream_env_def example_env_def example_world_def backupSessions_def
        on_output_close_def archive_directory_def closeAllSessions_def new_events_def
        status_truthy_def cpSync_def Let_def)

text \<open>
  C5. In every run of \<open>backupSessions\<close>, a call of \<open>startAllSessions\<close> comes after
  \<open>output\<close> has closed (the archive file is written), after the read stream has ended
  (the whole file has been handed to the response) and after the response has been
  ended by the pipe. The archive is built once and streamed once, each before the
  restart, which happens at most once. When the restart is called, the staging copy has
  not thrown, the archive file holds what the archiver found in the \<open>tokens\<close>
  directory and in the staging directory (nothing for a directory that is missing or
  empty), the response holds the whole archive file and the staging directory is gone.
\<close>

theorem backupSessions_restarts_after_streaming:
  "precedes OutputClosed StartAllSessions (new_events w (snd (backupSessions e w))) \<and>
   precedes StreamEnded StartAllSessions (new_events w (snd (backupSessions e w))) \<and>
   precedes ResponseEnded StartAllSessions (new_events w (snd (backupSessions e w))) \<and>
   precedes ArchiveStarted OutputClosed (new_events w (snd (backupSessions e w))) \<and>
   precedes OutputClosed StreamStarted (new_events w (snd (backupSessions e w))) \<and>
   precedes StreamStarted StreamEnded (new_events w (snd (backupSessions e w))) \<and>
   precedes StreamEnded ResponseEnded (new_events w (snd (backupSessions e w))) \<and>
   count_list (new_events w (snd (backupSessions e w))) ArchiveStarted \<le> 1 \<and>
   count_list (new_events w (snd (backupSessions e w))) StreamStarted \<le> 1 \<and>
   count_list (new_events w (snd (backupSessions e w))) StartAllSessions \<le> 1 \<and>
   (StartAllSessions \<in> set (new_events w (snd (backupSessions e w))) \<longrightarrow>
      snd (cpSync True (userDataDir w) (backupFolder w)) \<and>
      backupZip (snd (backupSessions e w))
        = Some (archive_directory ''tokens'' (tokensDir w) @
                archive_directory ''userDataDir''
                  (fst (cpSync True (userDataDir w) (backupFolder w)))) \<and>
      response (snd (backupSessions e w)) = backupZip (snd (backupSessions e w)) \<and>
      backupFolder (snd (backupSessions e w)) = None)"
proof (cases e w rule: backupSessions_cases)
  case (copy_throws td)
  have ne: "new_events w (snd (backupSessions e w)) = td"
    using copy_throws(3) by (simp add: new_events_def)
  show ?thesis
    unfolding ne using teardown_free [OF copy_throws(1)] teardown_count [OF copy_throws(1)]
    by (simp add: precedes_absent)
next
  case (archive_fails td msg)
  have ne: "new_events w (snd (backupSessions e w)) = td @ [ArchiveStarted, Reject, Log Err msg]"
    using archive_fails(3) by (simp add: new_events_def)
  show ?thesis
    unfolding ne using teardown_free [OF archive_fails(1)] teardown_count [OF archive_fails(1)]
    by (simp add: precedes_append_absent precedes_Cons)
next
  case (rm_throws td)
  have ne: "new_events w (snd (backupSessions e w)) = td @ [ArchiveStarted, OutputClosed]"
    using rm_throws(3) by (simp add: new_events_def)
  show ?thesis
    unfolding ne using teardown_free [OF rm_throws(1)] teardown_count [OF rm_throws(1)]
    by (simp add: precedes_append_absent precedes_Cons)
next
  case (stream_fails td msg)
  have ne: "new_events w (snd (backupSessions e w)) = td @
         [ArchiveStarted, OutputClosed, StagingRemoved, StreamStarted, Console msg, Reject]"
    using stream_fails(3) by (simp add: new_events_def)
  show ?thesis
    unfolding ne using teardown_free [OF stream_fails(1)] teardown_count [OF stream_fails(1)]
    by (simp add: precedes_append_absent precedes_Cons)
next
  case (completed td bf)
  have ne: "new_events w (snd (backupSessions e w)) = td @
         [ArchiveStarted, OutputClosed, StagingRemoved, StreamStarted, StreamEnded,
          ResponseEnded, Log Info ''Sessions successfully backuped. Restarting sessions...'',
          StartAllSessions, ResponseEnded]"
    using completed(3) by (simp add: new_events_def)
  have ord: "precedes ResponseEnded StartAllSessions
               ([ArchiveStarted, OutputClosed, StagingRemoved, StreamStarted, StreamEnded,
                 ResponseEnded, Log Info ''Sessions successfully backuped. Restarting sessions...'',
                 StartAllSessions, ResponseEnded])"
       "precedes StreamEnded ResponseEnded
               ([ArchiveStarted, OutputClosed, StagingRemoved, StreamStarted, StreamEnded,
                 ResponseEnded, Log Info ''Sessions successfully backuped. Restarting sessions...'',
                 StartAllSessions, ResponseEnded])"
    by (simp_all add: precedes_Cons)
  show ?thesis
    unfolding ne
    using teardown_free [OF completed(1)] teardown_count [OF completed(1)] completed(4-9) ord
    by (simp add: precedes_append_absent precedes_Cons)
qed

theorem backupSessions_restarts_after_streaming_witness:
  "StartAllSessions \<in> set (new_events example_world (snd (backupSessions example_env example_world))) \<and>
   new_events example_world (snd (backupSessions example_env example_world))
     = [RegistryDelete ''a'', Log Info ''Stopping session: a'', BrowserClose ''a'',
        Log Err ''Error stopping session: a'',
        RegistryDelete ''b'', Log Info ''Stopping session: b'', BrowserClose ''b'',
        RegistryDelete ''b'', GraceElapsed,
        ArchiveStarted, OutputClosed, StagingRemoved, StreamStarted, StreamEnded,
        ResponseEnded, Log Info ''Sessions successfully backuped. Restarting sessions...'',
        StartAllSessions, ResponseEnded] \<and>
   response (snd (backupSessions example_env example_world))
     = Some [(''tokens'', Dir [(''a.data.json'', File ''A''), (''sub'', Dir [(''x'', File ''X'')])]),
             (''userDataDir'',
              Dir [(''profile'', Dir [(''cookies.bin'', File ''C'')]), (''f'', File ''F'')])] \<and>
   backupZip (snd (backupSessions example_env example_world))
     = response (snd (backupSessions example_env example_world)) \<and>
   tokensDir tokenless_world = None \<and>
   StartAllSessions
     \<in> set (new_events tokenless_world (snd (backupSessions example_env tokenless_world))) \<and>
   fst (backupSessions example_env tokenless_world) = Pending \<and>
   response (snd (backupSessions example_env tokenless_world))
     = Some [(''userDataDir'',
              Dir [(''profile'', Dir [(''cookies.bin'', File ''C'')]), (''f'', File ''F'')])] \<and>
   StartAllSessions
     \<notin> set (new_events example_world (snd (backupSessions failing_stream_env example_world))) \<and>
   response (snd (backupSessions failing_stream_env example_world))
     = Some [(''tokens'', Dir [(''a.data.json'', File ''A''), (''sub'', Dir [(''x'', File ''X'')])])]"
  using backupSessions_restarts_after_streaming [of example_world example_env]
        backupSessions_restarts_after_streaming [of tokenless_world example_env]
  by (simp add: example_backup_run tokenless_backup_run failing_stream_backup_run)
     (simp add: example_archive_def tokenless_world_def)

text \<open>
  C9. The promise that \<open>backupSessions\<close> returns is never fulfilled. A run that ends
  the response leaves it pending, with the archive in the response; it is rejected
  exactly in the runs in which an \<open>error\<close> listener called \<open>reject\<close>, and those runs
  log or print an error and never end the response.
\<close>

theorem backupSessions_never_resolves:
  "fst (backupSessions e w) \<noteq> Fulfilled \<and>
   (ResponseEnded \<in> set (new_events w (snd (backupSessions e w))) \<longrightarrow>
      fst (backupSessions e w) = Pending \<and>
      response (snd (backupSessions e w)) = backupZip (snd (backupSessions e w)) \<and>
      response (snd (backupSessions e w)) \<noteq> None) \<and>
   (fst (backupSessions e w) = RejectedP \<longleftrightarrow>
      Reject \<in> set (new_events w (snd (backupSessions e w)))) \<and>
   (Reject \<in> set (new_events w (snd (backupSessions e w))) \<longrightarrow>
      ResponseEnded \<notin> set (new_events w (snd (backupSessions e w))) \<and>
      (\<exists>msg. Log Err msg \<in> set (new_events w (snd (backupSessions e w))) \<or>
             Console msg \<in> set (new_events w (snd (backupSessions e w)))))"
proof (cases e w rule: backupSessions_cases)
  case (copy_throws td)
  have ne: "new_events w (snd (backupSessions e w)) = td"
    using copy_throws(3) by (simp add: new_events_def)
  show ?thesis
    unfolding ne using teardown_free [OF copy_throws(1)] copy_throws(2) by simp
next
  case (archive_fails td msg)
  have ne: "new_events w (snd (backupSessions e w)) = td @ [ArchiveStarted, Reject, Log Err msg]"
    using archive_fails(3) by (simp add: new_events_def)
  show ?thesis
    unfolding ne using teardown_free [OF archive_fails(1)] archive_fails(2) by auto
next
  case (rm_throws td)
  have ne: "new_events w (snd (backupSessions e w)) = td @ [ArchiveStarted, OutputClosed]"
    using rm_throws(3) by (simp add: new_events_def)
  show ?thesis
    unfolding ne using teardown_free [OF rm_throws(1)] rm_throws(2) by simp
next
  case (stream_fails td msg)
  have ne: "new_events w (snd (backupSessions e w)) = td @
         [ArchiveStarted, OutputClosed, StagingRemoved, StreamStarted, Console msg, Reject]"
    using stream_fails(3) by (simp add: new_events_def)
  show ?thesis
    unfolding ne using teardown_free [OF stream_fails(1)] stream_fails(2) by auto
next
  case (completed td bf)
  have ne: "new_events w (snd (backupSessions e w)) = td @
         [ArchiveStarted, OutputClosed, StagingRemoved, StreamStarted, StreamEnded,
          ResponseEnded, Log Info ''Sessions successfully backuped. Restarting sessions...'',
          StartAllSessions, ResponseEnded]"
    using completed(3) by (simp add: new_events_def)
  show ?thesis
    unfolding ne using teardown_free [OF completed(1)] completed(2,5,6) by simp
qed

theorem backupSessions_never_resolves_witness:
  "ResponseEnded \<in> set (new_events example_world (snd (backupSessions example_env example_world))) \<and>
   fst (backupSessions example_env example_world) = Pending \<and>
   Reject \<in> set (new_events example_world (snd (backupSessions failing_stream_env example_world))) \<and>
   fst (backupSessions failing_stream_env example_world) = RejectedP \<and>
   Console ''EIO'' \<in> set (new_events example_world (snd (backupSessions failing_stream_env example_world)))"
  using backupSessions_never_resolves [of example_env example_world]
        backupSessions_never_resolves [of failing_stream_env example_world]
  by (simp add: example_backup_run failing_stream_backup_run)

subsection \<open>Growth of the trace\<close>

lemma new_events_split:
  assumes "prefix (trace w) (trace w1)" and "prefix (trace w1) (trace w2)"
  shows "new_events w w2 = new_events w w1 @ new_events w1 w2"
proof -
  from assms obtain a b where "trace w1 = trace w @ a" "trace w2 = trace w1 @ b"
    unfolding prefix_def by blast
  then show ?thesis by (simp add: new_events_def)
qed

lemma prefix_emit [simp]: "prefix (trace w) (trace (emit ev w))"
  by simp

lemma prefix_emit_trans: "prefix (trace w) (trace w') \<Longrightarrow> prefix (trace w) (trace (emit ev w'))"
  by (auto simp: prefix_def)

lemma new_events_emit:
  "prefix (trace w) (trace w') \<Longrightarrow> new_events w (emit ev w') = new_events w w' @ [ev]"
  by (auto simp: prefix_def new_events_def)

lemma closeAllSessions_prefix: "prefix (trace w) (trace (closeAllSessions e w))"
  using closeAllSessions_events [of e w] unfolding prefix_def by blast

lemma in_new_events_later:
  assumes "prefix (trace w) (trace w1)" and "prefix (trace w1) (trace w2)"
    and "ev \<in> set (new_events w1 w2)"
  shows "ev \<in> set (new_events w w2)"
  using new_events_split [OF assms(1,2)] assms(3) by simp

lemma in_new_events_earlier:
  assumes "prefix (trace w) (trace w1)" and "prefix (trace w1) (trace w2)"
    and "ev \<in> set (new_events w w1)"
  shows "ev \<in> set (new_events w w2)"
  using new_events_split [OF assms(1,2)] assms(3) by simp

subsection \<open>Removing a child\<close>

lemma child_Dir [simp]: "child (Some (Dir cs)) n = map_of cs n"
  by (simp add: child_def)

lemma child_None [simp]: "child None n = None"
  by (simp add: child_def)

lemma child_File [simp]: "child (Some (File b)) n = None"
  by (simp add: child_def)

lemma get_dir_simps [simp]:
  "get_dir UserData w = userDataDir w" "get_dir Tokens w = tokensDir w"
  "get_dir pl (emit ev w) = get_dir pl w"
  by (simp_all add: get_dir_def split: place.splits)

lemma remove_child_other [simp]:
  "tokensDir (remove_child UserData item w) = tokensDir w"
  "userDataDir (remove_child Tokens item w) = userDataDir w"
  "trace (remove_child pl item w) = trace w"
  by (simp_all add: remove_child_def set_dir_def split: place.splits)

lemma child_remove_child:
  "child (get_dir pl (remove_child pl item w)) n
     = (if n = item then None else child (get_dir pl w) n)"
proof (cases "get_dir pl w")
  case None
  then show ?thesis by (cases pl) (simp_all add: remove_child_def set_dir_def)
next
  case (Some d)
  then show ?thesis
    by (cases pl; cases d) (simp_all add: remove_child_def set_dir_def AList.delete_conv')
qed

lemmas child_remove_child_UserData [simp] = child_remove_child [of UserData, simplified]
lemmas child_remove_child_Tokens [simp] = child_remove_child [of Tokens, simplified]

subsection \<open>The loop over the User Data Tree\<close>

lemma lstat_isDirectory_emit [simp]:
  "lstat_isDirectory e pl (emit ev w) item = lstat_isDirectory e pl w item"
  by (simp add: lstat_isDirectory_def)

lemma clear_userdata_item_tokens [simp]:
  "tokensDir (clear_userdata_item e w item) = tokensDir w"
  by (simp add: clear_userdata_item_def Let_def split: sum.splits bool.splits)

lemma clear_userdata_item_prefix: "prefix (trace w) (trace (clear_userdata_item e w item))"
  by (simp add: clear_userdata_item_def Let_def split: sum.splits bool.splits)

lemma clear_userdata_item_other:
  "n \<noteq> item \<Longrightarrow>
   child (userDataDir (clear_userdata_item e w item)) n = child (userDataDir w) n"
  by (simp add: clear_userdata_item_def Let_def split: sum.splits bool.splits)

lemma clear_userdata_item_None:
  "child (userDataDir w) n = None \<Longrightarrow>
   child (userDataDir (clear_userdata_item e w item)) n = None"
  by (simp add: clear_userdata_item_def Let_def split: sum.splits bool.splits)

lemma clear_userdata_item_deletes:
  assumes "\<not> lstat_fails e UserData item" "\<not> rm_fails e item" "\<not> unlink_fails e UserData item"
  shows "child (userDataDir (clear_userdata_item e w item)) item = None"
  using assms
  by (simp add: clear_userdata_item_def lstat_isDirectory_def Let_def
        split: sum.splits bool.splits option.splits)

lemma clear_userdata_item_logs:
  assumes "lstat_fails e UserData item \<or>
           (\<exists>c. child (userDataDir w) item = Some c \<and>
                (if is_dir c then rm_fails e item else unlink_fails e UserData item))"
  shows "trace (clear_userdata_item e w item) = trace w @
           [Log Err (''Error deleting item '' @ sessionDirPath e @ ''/'' @ item @ '': ''
                      @ errmsg EACCES)] \<and>
         userDataDir (clear_userdata_item e w item) = userDataDir w"
  using assms
  by (auto simp: clear_userdata_item_def lstat_isDirectory_def Let_def
        split: sum.splits bool.splits option.splits if_splits)

lemma foldl_clear_userdata_tokens [simp]:
  "tokensDir (foldl (clear_userdata_item e) w items) = tokensDir w"
  by (induction items arbitrary: w) simp_all

lemma foldl_clear_userdata_prefix:
  "prefix (trace w) (trace (foldl (clear_userdata_item e) w items))"
proof (induction items arbitrary: w)
  case Nil
  show ?case by simp
next
  case (Cons item items)
  from clear_userdata_item_prefix [of w e item] Cons [of "clear_userdata_item e w item"]
  show ?case by (simp add: prefix_order.trans)
qed

lemma foldl_clear_userdata_None:
  "child (userDataDir w) n = None \<Longrightarrow>
   child (userDataDir (foldl (clear_userdata_item e) w items)) n = None"
  by (induction items arbitrary: w) (simp_all add: clear_userdata_item_None)

lemma foldl_clear_userdata_deletes:
  assumes "n \<in> set items"
    and "\<not> lstat_fails e UserData n" "\<not> rm_fails e n" "\<not> unlink_fails e UserData n"
  shows "child (userDataDir (foldl (clear_userdata_item e) w items)) n = None"
  using assms(1)
proof (induction items arbitrary: w)
  case Nil
  then show ?case by simp
next
  case (Cons item items)
  show ?case
  proof (cases "n = item")
    case True
    have "child (userDataDir (clear_userdata_item e w item)) n = None"
      unfolding True using assms(2-4) unfolding True by (rule clear_userdata_item_deletes)
    then show ?thesis by (simp add: foldl_clear_userdata_None)
  next
    case False
    with Cons.prems have "n \<in> set items" by simp
    then show ?thesis using Cons.IH by simp
  qed
qed

lemma foldl_clear_userdata_logs:
  assumes "item \<in> set items" and "distinct items"
    and "lstat_fails e UserData item \<or>
           (\<exists>c. child (userDataDir w) item = Some c \<and>
                (if is_dir c then rm_fails e item else unlink_fails e UserData item))"
  shows "Log Err (''Error deleting item '' @ sessionDirPath e @ ''/'' @ item @ '': ''
                   @ errmsg EACCES)
           \<in> set (new_events w (foldl (clear_userdata_item e) w items))"
  using assms
proof (induction items arbitrary: w)
  case Nil
  then show ?case by simp
next
  case (Cons x items)
  let ?w1 = "clear_userdata_item e w x"
  let ?w2 = "foldl (clear_userdata_item e) ?w1 items"
  have split: "new_events w ?w2 = new_events w ?w1 @ new_events ?w1 ?w2"
    by (rule new_events_split [OF clear_userdata_item_prefix foldl_clear_userdata_prefix])
  show ?case
  proof (cases "item = x")
    case True
    from clear_userdata_item_logs [OF Cons.prems(3)]
    have "new_events w ?w1 = [Log Err (''Error deleting item '' @ sessionDirPath e @ ''/''
                                         @ item @ '': '' @ errmsg EACCES)]"
      unfolding True by (simp add: new_events_def)
    with split show ?thesis by simp
  next
    case False
    then have "child (userDataDir ?w1) item = child (userDataDir w) item"
      by (simp add: clear_userdata_item_other)
    with Cons.prems False
    have "Log Err (''Error deleting item '' @ sessionDirPath e @ ''/'' @ item @ '': ''
                    @ errmsg EACCES) \<in> set (new_events ?w1 ?w2)"
      by (intro Cons.IH) simp_all
    with split show ?thesis by simp
  qed
qed

lemma clear_userdata_tokens [simp]: "tokensDir (clear_userdata e w) = tokensDir w"
  by (simp add: clear_userdata_def split: option.splits sum.splits)

lemma clear_userdata_prefix: "prefix (trace w) (trace (clear_userdata e w))"
  by (simp add: clear_userdata_def prefix_emit_trans foldl_clear_userdata_prefix
        split: option.splits sum.splits)

lemma clear_userdata_deletes:
  assumes "userDataDir w = Some (Dir cs)" and "n \<in> fst ` set cs"
    and "\<not> readdir_fails e UserData"
    and "\<not> lstat_fails e UserData n" "\<not> rm_fails e n" "\<not> unlink_fails e UserData n"
  shows "child (userDataDir (clear_userdata e w)) n = None"
proof -
  from assms(2) have "n \<in> set (map fst cs)" by simp
  then have "child (userDataDir (foldl (clear_userdata_item e) w (map fst cs))) n = None"
    using assms(4-6) by (rule foldl_clear_userdata_deletes)
  then show ?thesis using assms(1,3) by (simp add: clear_userdata_def readdirSync_def)
qed

lemma clear_userdata_logs:
  assumes "userDataDir w = Some (Dir cs)" and "distinct (map fst cs)"
    and "\<not> readdir_fails e UserData" and "map_of cs item = Some c"
    and "lstat_fails e UserData item \<or>
           (if is_dir c then rm_fails e item else unlink_fails e UserData item)"
  shows "Log Err (''Error deleting item '' @ sessionDirPath e @ ''/'' @ item @ '': ''
                   @ errmsg EACCES) \<in> set (new_events w (clear_userdata e w))"
proof -
  let ?w1 = "foldl (clear_userdata_item e) w (map fst cs)"
  from assms(4) have "item \<in> set (map fst cs)"
    by (metis image_eqI map_of_SomeD set_map fst_conv)
  moreover note assms(2)
  moreover have "lstat_fails e UserData item \<or>
           (\<exists>c. child (userDataDir w) item = Some c \<and>
                (if is_dir c then rm_fails e item else unlink_fails e UserData item))"
    using assms(1,4,5) by auto
  ultimately have "Log Err (''Error deleting item '' @ sessionDirPath e @ ''/'' @ item @ '': ''
                   @ errmsg EACCES) \<in> set (new_events w ?w1)"
    by (rule foldl_clear_userdata_logs)
  moreover have "clear_userdata e w
      = emit (Log Info (''Successfully cleared session directory: '' @ sessionDirPath e)) ?w1"
    using assms(1,3) by (simp add: clear_userdata_def readdirSync_def)
  ultimately show ?thesis
    by (simp add: new_events_emit [OF foldl_clear_userdata_prefix])
qed

lemma clear_userdata_enumeration_fails:
  assumes "userDataDir w = Some d" and "readdir_fails e UserData \<or> \<not> is_dir d"
  shows "clear_userdata e w =
           emit (Log Err (''Error clearing session directory '' @ sessionDirPath e @ '': ''
                           @ errmsg (if readdir_fails e UserData then EACCES else ENOTDIR))) w"
  using assms by (cases d) (auto simp: clear_userdata_def readdirSync_def)

subsection \<open>The loop over the Token Store\<close>

lemma clear_token_item_simps [simp]:
  "userDataDir (clear_token_item e w item isd) = userDataDir w"
  "prefix (trace w) (trace (clear_token_item e w item isd))"
  by (simp_all add: clear_token_item_def Let_def)

lemma clear_token_items_userdata [simp]:
  "userDataDir (snd (clear_token_items e items w)) = userDataDir w"
  by (induction items arbitrary: w) (simp_all split: sum.splits)

lemma clear_token_items_prefix: "prefix (trace w) (trace (snd (clear_token_items e items w)))"
proof (induction items arbitrary: w)
  case Nil
  show ?case by simp
next
  case (Cons item items)
  show ?case
  proof (cases "lstat_isDirectory e Tokens w item")
    case (Inl err)
    then show ?thesis by simp
  next
    case (Inr isd)
    have "prefix (trace w) (trace (clear_token_item e w item isd))" by simp
    from this Cons [of "clear_token_item e w item isd"]
    have "prefix (trace w) (trace (snd (clear_token_items e items (clear_token_item e w item isd))))"
      by (rule prefix_order.trans)
    with Inr show ?thesis by simp
  qed
qed

text \<open>A directory among the children stays where it is.\<close>

lemma clear_token_item_keeps_dir:
  assumes "lstat_isDirectory e Tokens w item = Inr isd"
    and "child (tokensDir w) n = Some (Dir cs)"
  shows "child (tokensDir (clear_token_item e w item isd)) n = Some (Dir cs)"
proof (cases "n = item")
  case True
  with assms have "isd" by (auto simp: lstat_isDirectory_def split: if_splits)
  with assms(2) show ?thesis by (simp add: clear_token_item_def)
next
  case False
  with assms(2) show ?thesis by (simp add: clear_token_item_def Let_def)
qed

lemma clear_token_items_keep_dir:
  "child (tokensDir w) n = Some (Dir cs) \<Longrightarrow>
   child (tokensDir (snd (clear_token_items e items w))) n = Some (Dir cs)"
proof (induction items arbitrary: w)
  case Nil
  then show ?case by simp
next
  case (Cons item items)
  show ?case
  proof (cases "lstat_isDirectory e Tokens w item")
    case (Inl err)
    with Cons.prems show ?thesis by simp
  next
    case (Inr isd)
    from clear_token_item_keeps_dir [OF Inr Cons.prems]
    have "child (tokensDir (snd (clear_token_items e items (clear_token_item e w item isd)))) n
            = Some (Dir cs)"
      by (rule Cons.IH)
    with Inr show ?thesis by simp
  qed
qed

lemma clear_token_items_warns:
  assumes "fst (clear_token_items e items w) = None" and "n \<in> set items"
    and "child (tokensDir w) n = Some (Dir cs)"
  shows "Log Warn (''Skipping unexpected directory in tokens folder: '' @ tokensDirPath e
                    @ ''/'' @ n) \<in> set (new_events w (snd (clear_token_items e items w)))"
  using assms
proof (induction items arbitrary: w)
  case Nil
  then show ?case by simp
next
  case (Cons item items)
  from Cons.prems(1) obtain isd where isd: "lstat_isDirectory e Tokens w item = Inr isd"
    by (cases "lstat_isDirectory e Tokens w item") simp_all
  let ?w1 = "clear_token_item e w item isd"
  let ?w2 = "snd (clear_token_items e items ?w1)"
  have run: "clear_token_items e (item # items) w = clear_token_items e items ?w1"
    using isd by simp
  have split: "new_events w ?w2 = new_events w ?w1 @ new_events ?w1 ?w2"
    by (rule new_events_split [OF _ clear_token_items_prefix]) simp
  show ?case
  proof (cases "n = item")
    case True
    with isd Cons.prems(3) have "isd" by (auto simp: lstat_isDirectory_def split: if_splits)
    then have "new_events w ?w1 =
        [Log Warn (''Skipping unexpected directory in tokens folder: '' @ tokensDirPath e
                    @ ''/'' @ n)]"
      unfolding True by (simp add: clear_token_item_def new_events_def)
    with split run show ?thesis by simp
  next
    case False
    with Cons.prems(2) have "n \<in> set items" by simp
    moreover have "fst (clear_token_items e items ?w1) = None"
      using Cons.prems(1) run by simp
    moreover have "child (tokensDir ?w1) n = Some (Dir cs)"
      by (rule clear_token_item_keeps_dir [OF isd Cons.prems(3)])
    ultimately have "Log Warn (''Skipping unexpected directory in tokens folder: ''
        @ tokensDirPath e @ ''/'' @ n) \<in> set (new_events ?w1 ?w2)"
      by (intro Cons.IH)
    with split run show ?thesis by simp
  qed
qed

lemma clear_token_item_other:
  "n \<noteq> item \<Longrightarrow>
   child (tokensDir (clear_token_item e w item isd)) n = child (tokensDir w) n"
  by (simp add: clear_token_item_def Let_def)

lemma clear_token_item_None:
  "child (tokensDir w) n = None \<Longrightarrow> child (tokensDir (clear_token_item e w item isd)) n = None"
  by (simp add: clear_token_item_def Let_def)

lemma clear_token_items_None:
  "child (tokensDir w) n = None \<Longrightarrow>
   child (tokensDir (snd (clear_token_items e items w))) n = None"
  by (induction items arbitrary: w) (simp_all add: clear_token_item_None split: sum.splits)

text \<open>The loop runs to its end when no \<open>lstatSync\<close> throws.\<close>

lemma clear_token_items_completes:
  assumes "distinct items"
    and "\<forall>i \<in> set items. \<not> lstat_fails e Tokens i \<and> child (tokensDir w) i \<noteq> None"
  shows "fst (clear_token_items e items w) = None"
  using assms
proof (induction items arbitrary: w)
  case Nil
  show ?case by simp
next
  case (Cons item items)
  from Cons.prems(2) obtain c where c: "child (tokensDir w) item = Some c"
    and nf: "\<not> lstat_fails e Tokens item" by auto
  then have isd: "lstat_isDirectory e Tokens w item = Inr (is_dir c)"
    by (simp add: lstat_isDirectory_def)
  let ?w1 = "clear_token_item e w item (is_dir c)"
  have "\<forall>i \<in> set items. \<not> lstat_fails e Tokens i \<and> child (tokensDir ?w1) i \<noteq> None"
  proof
    fix i assume i: "i \<in> set items"
    with Cons.prems(1) have "i \<noteq> item" by auto
    with i Cons.prems(2) show "\<not> lstat_fails e Tokens i \<and> child (tokensDir ?w1) i \<noteq> None"
      by (simp add: clear_token_item_other)
  qed
  with Cons.prems(1) have "fst (clear_token_items e items ?w1) = None"
    by (intro Cons.IH) simp_all
  with isd show ?case by simp
qed

text \<open>The loop is left with an error when some \<open>lstatSync\<close> throws.\<close>

lemma clear_token_items_escalates:
  "i \<in> set items \<Longrightarrow> lstat_fails e Tokens i \<Longrightarrow> fst (clear_token_items e items w) \<noteq> None"
proof (induction items arbitrary: w)
  case Nil
  then show ?case by simp
next
  case (Cons item items)
  show ?case
  proof (cases "lstat_isDirectory e Tokens w item")
    case (Inl err)
    then show ?thesis by simp
  next
    case (Inr isd)
    then have "\<not> lstat_fails e Tokens item" by (auto simp: lstat_isDirectory_def split: if_splits)
    with Cons.prems have "i \<in> set items" by auto
    with Cons.IH Cons.prems(2) Inr show ?thesis by simp
  qed
qed

text \<open>A file whose \<open>unlinkSync\<close> throws is logged and stays; the loop goes on.\<close>

lemma clear_token_items_unlink_fails:
  assumes "fst (clear_token_items e items w) = None" and "item \<in> set items"
    and "child (tokensDir w) item = Some (File b)" and "unlink_fails e Tokens item"
  shows "Log Err (''Error deleting token file '' @ tokensDirPath e @ ''/'' @ item @ '': ''
                   @ errmsg EACCES) \<in> set (new_events w (snd (clear_token_items e items w))) \<and>
         child (tokensDir (snd (clear_token_items e items w))) item = Some (File b)"
  using assms(1-3)
proof (induction items arbitrary: w)
  case Nil
  then show ?case by simp
next
  case (Cons x items)
  from Cons.prems(1) obtain isd where isd: "lstat_isDirectory e Tokens w x = Inr isd"
    by (cases "lstat_isDirectory e Tokens w x") simp_all
  let ?w1 = "clear_token_item e w x isd"
  let ?w2 = "snd (clear_token_items e items ?w1)"
  have run: "clear_token_items e (x # items) w = clear_token_items e items ?w1"
    using isd by simp
  have split: "new_events w ?w2 = new_events w ?w1 @ new_events ?w1 ?w2"
    by (rule new_events_split [OF _ clear_token_items_prefix]) simp
  have rest: "fst (clear_token_items e items ?w1) = None" using Cons.prems(1) run by simp
  show ?case
  proof (cases "item = x")
    case True
    with isd Cons.prems(3) have nd: "\<not> isd" by (auto simp: lstat_isDirectory_def split: if_splits)
    have ev: "new_events w ?w1 =
        [Log Err (''Error deleting token file '' @ tokensDirPath e @ ''/'' @ item @ '': ''
                   @ errmsg EACCES)]"
      using nd assms(4) unfolding True by (simp add: clear_token_item_def new_events_def)
    have keep: "child (tokensDir ?w1) item = Some (File b)"
      using nd assms(4) Cons.prems(3) unfolding True by (simp add: clear_token_item_def)
    have "child (tokensDir ?w2) item = Some (File b)"
    proof (cases "item \<in> set items")
      case True
      from Cons.IH [OF rest True keep] show ?thesis by simp
    next
      case False
      have "\<And>w. child (tokensDir w) item = Some (File b) \<Longrightarrow>
                child (tokensDir (snd (clear_token_items e items w))) item = Some (File b)"
        using False
      proof (induction items)
        case Nil
        then show ?case by simp
      next
        case (Cons y ys)
        then show ?case
          by (auto simp: clear_token_item_other split: sum.splits)
      qed
      with keep show ?thesis by blast
    qed
    with ev split run show ?thesis by simp
  next
    case False
    with Cons.prems(2) have "item \<in> set items" by simp
    moreover have "child (tokensDir ?w1) item = Some (File b)"
      using False Cons.prems(3) by (simp add: clear_token_item_other)
    ultimately have "Log Err (''Error deleting token file '' @ tokensDirPath e @ ''/'' @ item
        @ '': '' @ errmsg EACCES) \<in> set (new_events ?w1 ?w2) \<and>
        child (tokensDir ?w2) item = Some (File b)"
      using rest by (intro Cons.IH)
    with split run show ?thesis by simp
  qed
qed

text \<open>A file whose \<open>unlinkSync\<close> succeeds is gone when the loop has run to its end.\<close>

lemma clear_token_items_unlinks:
  assumes "fst (clear_token_items e items w) = None" and "item \<in> set items"
    and "child (tokensDir w) item = Some (File b)" and "\<not> unlink_fails e Tokens item"
  shows "child (tokensDir (snd (clear_token_items e items w))) item = None"
  using assms(1-3)
proof (induction items arbitrary: w)
  case Nil
  then show ?case by simp
next
  case (Cons x items)
  from Cons.prems(1) obtain isd where isd: "lstat_isDirectory e Tokens w x = Inr isd"
    by (cases "lstat_isDirectory e Tokens w x") simp_all
  let ?w1 = "clear_token_item e w x isd"
  have run: "clear_token_items e (x # items) w = clear_token_items e items ?w1"
    using isd by simp
  have rest: "fst (clear_token_items e items ?w1) = None" using Cons.prems(1) run by simp
  show ?case
  proof (cases "item = x")
    case True
    with isd Cons.prems(3) have nd: "\<not> isd" by (auto simp: lstat_isDirectory_def split: if_splits)
    have "child (tokensDir ?w1) item = None"
      using nd assms(4) unfolding True by (simp add: clear_token_item_def)
    then show ?thesis unfolding run by (rule clear_token_items_None)
  next
    case False
    with Cons.prems(2) have "item \<in> set items" by simp
    moreover have "child (tokensDir ?w1) item = Some (File b)"
      using False Cons.prems(3) by (simp add: clear_token_item_other)
    ultimately show ?thesis unfolding run using rest by (intro Cons.IH)
  qed
qed

subsection \<open>The Token Store phase\<close>

lemma token_cleanup_failed_simps [simp]:
  "fst (token_cleanup_failed e err w) =
     Some (Error (''Failed to fully clear all session data. Error during token cleanup: ''
                   @ errmsg err))"
  "tokensDir (snd (token_cleanup_failed e err w)) = tokensDir w"
  "userDataDir (snd (token_cleanup_failed e err w)) = userDataDir w"
  "trace (snd (token_cleanup_failed e err w)) = trace w @
     [Log Err (''Error clearing tokens directory '' @ tokensDirPath e @ '': '' @ errmsg err)]"
  by (simp_all add: token_cleanup_failed_def)

lemma clear_tokens_Dir:
  assumes "tokensDir w = Some (Dir cs)" and "\<not> readdir_fails e Tokens"
  shows "clear_tokens e w =
           (case clear_token_items e (map fst cs) w of
              (Some err, w') \<Rightarrow> token_cleanup_failed e err w'
            | (None, w') \<Rightarrow>
                (None, emit (Log Info (''Successfully cleared tokens directory: ''
                                        @ tokensDirPath e)) w'))"
  using assms by (simp add: clear_tokens_def readdirSync_def)

lemma clear_tokens_not_enumerated:
  assumes "tokensDir w = Some d" and "readdir_fails e Tokens \<or> \<not> is_dir d"
  shows "clear_tokens e w =
           token_cleanup_failed e (if readdir_fails e Tokens then EACCES else ENOTDIR) w"
  using assms by (cases d) (auto simp: clear_tokens_def readdirSync_def)

lemma clear_tokens_absent:
  assumes "tokensDir w = None"
  shows "clear_tokens e w =
           (None, emit (Log Warn (''Tokens directory does not exist, nothing to clear: ''
                                   @ tokensDirPath e)) w)"
  using assms by (simp add: clear_tokens_def)

text \<open>
  The three ways the phase runs: the directory is absent, it cannot be enumerated, or
  the loop runs over its entries.
\<close>

lemma clear_tokens_cases:
  obtains
    (absent) "tokensDir w = None"
      "clear_tokens e w =
         (None, emit (Log Warn (''Tokens directory does not exist, nothing to clear: ''
                                 @ tokensDirPath e)) w)"
  | (not_enumerated) d where "tokensDir w = Some d" "readdir_fails e Tokens \<or> \<not> is_dir d"
      "clear_tokens e w =
         token_cleanup_failed e (if readdir_fails e Tokens then EACCES else ENOTDIR) w"
  | (loop_throws) cs err w' where "tokensDir w = Some (Dir cs)" "\<not> readdir_fails e Tokens"
      "clear_token_items e (map fst cs) w = (Some err, w')"
      "clear_tokens e w = token_cleanup_failed e err w'"
  | (loop_ends) cs w' where "tokensDir w = Some (Dir cs)" "\<not> readdir_fails e Tokens"
      "clear_token_items e (map fst cs) w = (None, w')"
      "clear_tokens e w =
         (None, emit (Log Info (''Successfully cleared tokens directory: ''
                                 @ tokensDirPath e)) w')"
proof (cases "tokensDir w")
  case None
  then show ?thesis by (intro absent clear_tokens_absent)
next
  case (Some d)
  show ?thesis
  proof (cases "readdir_fails e Tokens \<or> \<not> is_dir d")
    case True
    with Some show ?thesis by (intro not_enumerated [of d] clear_tokens_not_enumerated)
  next
    case False
    then obtain cs where d: "d = Dir cs" and nf: "\<not> readdir_fails e Tokens" by (cases d) auto
    obtain r w' where r: "clear_token_items e (map fst cs) w = (r, w')"
      by (cases "clear_token_items e (map fst cs) w")
    show ?thesis
    proof (cases r)
      case None
      with Some d nf r show ?thesis
        by (intro loop_ends [of cs w']) (simp_all add: clear_tokens_Dir)
    next
      case (Some err)
      with \<open>tokensDir w = Some d\<close> d nf r show ?thesis
        by (intro loop_throws [of cs err w']) (simp_all add: clear_tokens_Dir)
    qed
  qed
qed

lemma clear_tokens_userdata [simp]: "userDataDir (snd (clear_tokens e w)) = userDataDir w"
proof (cases e w rule: clear_tokens_cases)
  case (loop_throws cs err w')
  from clear_token_items_userdata [of e "map fst cs" w] loop_throws(3,4)
  show ?thesis by simp
next
  case (loop_ends cs w')
  from clear_token_items_userdata [of e "map fst cs" w] loop_ends(3,4)
  show ?thesis by simp
qed simp_all

lemma clear_tokens_prefix: "prefix (trace w) (trace (snd (clear_tokens e w)))"
proof (cases e w rule: clear_tokens_cases)
  case (loop_throws cs err w')
  from clear_token_items_prefix [of w e "map fst cs"] loop_throws(3,4)
  show ?thesis by (auto simp: prefix_def)
next
  case (loop_ends cs w')
  from clear_token_items_prefix [of w e "map fst cs"] loop_ends(3,4)
  show ?thesis by (auto simp: prefix_def)
qed simp_all

lemma clear_tokens_keeps_dir:
  assumes "child (tokensDir w) n = Some (Dir cs)"
  shows "child (tokensDir (snd (clear_tokens e w))) n = Some (Dir cs)"
proof (cases e w rule: clear_tokens_cases)
  case (loop_throws cs' err w')
  from clear_token_items_keep_dir [OF assms, of e "map fst cs'"] loop_throws(3,4)
  show ?thesis by simp
next
  case (loop_ends cs' w')
  from clear_token_items_keep_dir [OF assms, of e "map fst cs'"] loop_ends(3,4)
  show ?thesis by simp
qed (use assms in simp_all)

lemma child_in_names: "map_of cs n = Some c \<Longrightarrow> n \<in> set (map fst cs)"
  by (metis image_eqI map_of_SomeD set_map fst_conv)

lemma clear_tokens_warns:
  assumes "fst (clear_tokens e w) = None" and "child (tokensDir w) n = Some (Dir cs)"
  shows "Log Warn (''Skipping unexpected directory in tokens folder: '' @ tokensDirPath e
                    @ ''/'' @ n) \<in> set (new_events w (snd (clear_tokens e w)))"
proof (cases e w rule: clear_tokens_cases)
  case (loop_ends cs' w')
  from assms(2) loop_ends(1) have n: "n \<in> set (map fst cs')"
    by (intro child_in_names [of cs' n "Dir cs"]) simp
  from clear_token_items_warns [of e "map fst cs'" w n cs] loop_ends(3) n assms(2)
  have "Log Warn (''Skipping unexpected directory in tokens folder: '' @ tokensDirPath e
                    @ ''/'' @ n) \<in> set (new_events w w')" by simp
  moreover have "prefix (trace w) (trace w')"
    using clear_token_items_prefix [of w e "map fst cs'"] loop_ends(3) by simp
  ultimately show ?thesis using loop_ends(4) by (simp add: new_events_emit)
qed (use assms in simp_all)

lemma clear_tokens_unlink_fails:
  assumes "fst (clear_tokens e w) = None" and "child (tokensDir w) item = Some (File b)"
    and "unlink_fails e Tokens item"
  shows "Log Err (''Error deleting token file '' @ tokensDirPath e @ ''/'' @ item @ '': ''
                   @ errmsg EACCES) \<in> set (new_events w (snd (clear_tokens e w))) \<and>
         child (tokensDir (snd (clear_tokens e w))) item = Some (File b)"
proof (cases e w rule: clear_tokens_cases)
  case (loop_ends cs' w')
  from assms(2) loop_ends(1) have n: "item \<in> set (map fst cs')"
    by (intro child_in_names [of cs' item "File b"]) simp
  from clear_token_items_unlink_fails [of e "map fst cs'" w item b] loop_ends(3) n assms(2,3)
  have "Log Err (''Error deleting token file '' @ tokensDirPath e @ ''/'' @ item @ '': ''
                   @ errmsg EACCES) \<in> set (new_events w w')"
    "child (tokensDir w') item = Some (File b)" by simp_all
  moreover have "prefix (trace w) (trace w')"
    using clear_token_items_prefix [of w e "map fst cs'"] loop_ends(3) by simp
  ultimately show ?thesis using loop_ends(4) by (simp add: new_events_emit)
qed (use assms in simp_all)

lemma clear_tokens_unlinks:
  assumes "fst (clear_tokens e w) = None" and "child (tokensDir w) item = Some (File b)"
    and "\<not> unlink_fails e Tokens item"
  shows "child (tokensDir (snd (clear_tokens e w))) item = None"
proof (cases e w rule: clear_tokens_cases)
  case (loop_ends cs' w')
  from assms(2) loop_ends(1) have n: "item \<in> set (map fst cs')"
    by (intro child_in_names [of cs' item "File b"]) simp
  from clear_token_items_unlinks [of e "map fst cs'" w item b] loop_ends(3) n assms(2,3)
  show ?thesis using loop_ends(4) by simp
qed (use assms in simp_all)

lemma clear_tokens_completes:
  assumes "tokensDir w = None \<or>
           (\<exists>cs. tokensDir w = Some (Dir cs) \<and> distinct (map fst cs) \<and>
                 \<not> readdir_fails e Tokens \<and> (\<forall>i \<in> fst ` set cs. \<not> lstat_fails e Tokens i))"
  shows "fst (clear_tokens e w) = None"
proof (cases e w rule: clear_tokens_cases)
  case (not_enumerated d)
  with assms show ?thesis by auto
next
  case (loop_throws cs err w')
  with assms have "distinct (map fst cs)" "\<forall>i \<in> fst ` set cs. \<not> lstat_fails e Tokens i"
    by auto
  moreover have "\<forall>i \<in> fst ` set cs. child (tokensDir w) i \<noteq> None"
    using loop_throws(1) by (auto simp: weak_map_of_SomeI map_of_eq_None_iff)
  ultimately have "fst (clear_token_items e (map fst cs) w) = None"
    by (intro clear_token_items_completes) simp_all
  with loop_throws(3) show ?thesis by simp
qed simp_all

lemma clear_tokens_escalates:
  assumes "tokensDir w = Some d"
    and "readdir_fails e Tokens \<or> \<not> is_dir d \<or>
         (\<exists>cs i. d = Dir cs \<and> i \<in> fst ` set cs \<and> lstat_fails e Tokens i)"
  shows "\<exists>err. fst (clear_tokens e w) =
           Some (Error (''Failed to fully clear all session data. Error during token cleanup: ''
                         @ errmsg err)) \<and>
         Log Err (''Error clearing tokens directory '' @ tokensDirPath e @ '': '' @ errmsg err)
           \<in> set (new_events w (snd (clear_tokens e w)))"
proof (cases e w rule: clear_tokens_cases)
  case absent
  with assms show ?thesis by simp
next
  case (not_enumerated d')
  then show ?thesis by (auto simp: new_events_def)
next
  case (loop_throws cs err w')
  have "prefix (trace w) (trace w')"
    using clear_token_items_prefix [of w e "map fst cs"] loop_throws(3) by simp
  then show ?thesis using loop_throws(4) by (auto simp: new_events_def prefix_def)
next
  case (loop_ends cs w')
  with assms obtain i where "i \<in> set (map fst cs)" "lstat_fails e Tokens i" by auto
  then have "fst (clear_token_items e (map fst cs) w) \<noteq> None"
    by (rule clear_token_items_escalates)
  with loop_ends(3) show ?thesis by simp
qed

subsection \<open>The phases of deleteAllSessions\<close>

lemma deleteAllSessions_phases:
  "deleteAllSessions e w =
     (case fst (clear_tokens e (userdata_done e w)) of
        Some err \<Rightarrow> Inl err
      | None \<Rightarrow> Inr cleared,
      snd (clear_tokens e (userdata_done e w)))"
  by (simp add: deleteAllSessions_def teardown_done_def userdata_done_def cleared_def Let_def
        split: prod.splits option.splits)

lemma teardown_done_simps [simp]:
  "tokensDir (teardown_done e w) = tokensDir w"
  "userDataDir (teardown_done e w) = userDataDir w"
  by (simp_all add: teardown_done_def)

lemma teardown_done_prefix: "prefix (trace w) (trace (teardown_done e w))"
proof -
  have "prefix (trace w) (trace (emit (Log Info ''Attempting to delete all sessions...'') w))"
    by simp
  also have "prefix \<dots>
      (trace (closeAllSessions e (emit (Log Info ''Attempting to delete all sessions...'') w)))"
    by (rule closeAllSessions_prefix)
  finally show ?thesis
    unfolding teardown_done_def by (intro prefix_emit_trans)
qed

lemma userdata_done_simps [simp]:
  "tokensDir (userdata_done e w) = tokensDir w"
  "userDataDir (userdata_done e w) = userDataDir (clear_userdata e (teardown_done e w))"
  by (simp_all add: userdata_done_def)

lemma userdata_done_prefix: "prefix (trace (teardown_done e w)) (trace (userdata_done e w))"
  unfolding userdata_done_def by (intro prefix_emit_trans clear_userdata_prefix)

lemma deleted_prefix:
  "prefix (trace (userdata_done e w)) (trace (snd (deleteAllSessions e w)))"
  by (simp add: deleteAllSessions_phases clear_tokens_prefix)

text \<open>An event of the Token Store phase is an event of the call.\<close>

lemma token_phase_event:
  assumes "ev \<in> set (new_events (userdata_done e w) (snd (clear_tokens e (userdata_done e w))))"
  shows "ev \<in> set (new_events w (snd (deleteAllSessions e w)))"
proof -
  have "prefix (trace w) (trace (userdata_done e w))"
    using teardown_done_prefix userdata_done_prefix by (rule prefix_order.trans)
  from this deleted_prefix show ?thesis
    by (rule in_new_events_later) (use assms in \<open>simp add: deleteAllSessions_phases\<close>)
qed

text \<open>An event of the User Data Tree phase is an event of the call.\<close>

lemma userdata_phase_event:
  assumes "ev \<in> set (new_events (teardown_done e w) (clear_userdata e (teardown_done e w)))"
  shows "ev \<in> set (new_events w (snd (deleteAllSessions e w)))"
proof -
  let ?w1 = "teardown_done e w"
  have a: "ev \<in> set (new_events ?w1 (userdata_done e w))"
    using assms unfolding userdata_done_def
    by (simp add: new_events_emit [OF clear_userdata_prefix])
  have "ev \<in> set (new_events ?w1 (snd (deleteAllSessions e w)))"
    using userdata_done_prefix deleted_prefix a by (rule in_new_events_earlier)
  with teardown_done_prefix show ?thesis
    by (rule in_new_events_later [OF _ prefix_order.trans [OF userdata_done_prefix deleted_prefix]])
qed

lemma deleteAllSessions_succeeds_iff:
  "(fst (deleteAllSessions e w) = Inr cleared) = (fst (clear_tokens e (userdata_done e w)) = None)"
  by (simp add: deleteAllSessions_phases split: option.splits)

lemma deleteAllSessions_Inr:
  "fst (deleteAllSessions e w) = Inr a \<Longrightarrow> fst (clear_tokens e (userdata_done e w)) = None"
  by (simp add: deleteAllSessions_phases split: option.splits)

subsection \<open>The example runs of deleteAllSessions\<close>

lemmas delete_eval =
  deleteAllSessions_def closeAllSessions_def clear_userdata_def clear_userdata_item_def
  clear_tokens_def clear_token_item_def lstat_isDirectory_def readdirSync_def remove_child_def
  set_dir_def get_dir_def errmsg_def token_cleanup_failed_def child_def status_truthy_def
  new_events_def Let_def example_env_def example_world_def

lemma example_delete_run:
  "fst (deleteAllSessions example_env example_world)
     = Inr \<lparr>success = True, message = Some ''All sessions closed and data/tokens cleared.''\<rparr>"
  "tokensDir (snd (deleteAllSessions example_env example_world))
     = Some (Dir [(''sub'', Dir [(''x'', File ''X'')])])"
  "userDataDir (snd (deleteAllSessions example_env example_world)) = Some (Dir [])"
  "new_events example_world (snd (deleteAllSessions example_env example_world)) =
     [Log Info ''Attempting to delete all sessions...'',
      RegistryDelete ''a'', Log Info ''Stopping session: a'', BrowserClose ''a'',
      Log Err ''Error stopping session: a'',
      RegistryDelete ''b'', Log Info ''Stopping session: b'', BrowserClose ''b'',
      RegistryDelete ''b'', GraceElapsed,
      Log Info ''All active browser sessions closed.'',
      Log Info ''Attempting to clear session directory: /srv/userDataDir'',
      Log Info ''Deleted directory: /srv/userDataDir/profile'',
      Log Info ''Deleted file: /srv/userDataDir/f'',
      Log Info ''Successfully cleared session directory: /srv/userDataDir'',
      Log Info ''Attempting to clear tokens directory: /srv/tokens'',
      Log Info ''Deleted token file: /srv/tokens/a.data.json'',
      Log Warn ''Skipping unexpected directory in tokens folder: /srv/tokens/sub'',
      Log Info ''Successfully cleared tokens directory: /srv/tokens'']"
  by (simp_all add: delete_eval)

lemma busy_token_delete_run:
  "fst (deleteAllSessions busy_token_env example_world)
     = Inr \<lparr>success = True, message = Some ''All sessions closed and data/tokens cleared.''\<rparr>"
  "tokensDir (snd (deleteAllSessions busy_token_env example_world))
     = Some (Dir [(''a.data.json'', File ''A''), (''sub'', Dir [(''x'', File ''X'')])])"
  "Log Err ''Error deleting token file /srv/tokens/a.data.json: EACCES''
     \<in> set (new_events example_world (snd (deleteAllSessions busy_token_env example_world)))"
  by (simp_all add: delete_eval busy_token_env_def)

lemma busy_profile_delete_run:
  "fst (deleteAllSessions busy_profile_env example_world)
     = Inr \<lparr>success = True, message = Some ''All sessions closed and data/tokens cleared.''\<rparr>"
  "userDataDir (snd (deleteAllSessions busy_profile_env example_world))
     = Some (Dir [(''profile'', Dir [(''cookies.bin'', File ''C'')])])"
  "Log Err ''Error deleting item /srv/userDataDir/profile: EACCES''
     \<in> set (new_events example_world (snd (deleteAllSessions busy_profile_env example_world)))"
  by (simp_all add: delete_eval busy_profile_env_def)

lemma unreadable_token_delete_run:
  "fst (deleteAllSessions unreadable_token_env example_world)
     = Inl (Error ''Failed to fully clear all session data. Error during token cleanup: EACCES'')"
  "userDataDir (snd (deleteAllSessions unreadable_token_env example_world)) = Some (Dir [])"
  by (simp_all add: delete_eval unreadable_token_env_def)

lemma unreadable_userdata_delete_run:
  "fst (deleteAllSessions unreadable_userdata_env example_world)
     = Inr \<lparr>success = True, message = Some ''All sessions closed and data/tokens cleared.''\<rparr>"
  "tokensDir (snd (deleteAllSessions unreadable_userdata_env example_world))
     = Some (Dir [(''sub'', Dir [(''x'', File ''X'')])])"
  "userDataDir (snd (deleteAllSessions unreadable_userdata_env example_world))
     = Some (Dir [(''profile'', Dir [(''cookies.bin'', File ''C'')]), (''f'', File ''F'')])"
  "Log Err ''Error clearing session directory /srv/userDataDir: EACCES''
     \<in> set (new_events example_world (snd (deleteAllSessions unreadable_userdata_env example_world)))"
  by (simp_all add: delete_eval unreadable_userdata_env_def)

lemma example_world_dirs:
  "tokensDir example_world
     = Some (Dir [(''a.data.json'', File ''A''), (''sub'', Dir [(''x'', File ''X'')])])"
  "userDataDir example_world
     = Some (Dir [(''profile'', Dir [(''cookies.bin'', File ''C'')]), (''f'', File ''F'')])"
  by (simp_all add: example_world_def)

subsection \<open>What deleteAllSessions deletes\<close>

text \<open>
  C7. Whatever the two directories hold and whichever calls fail, a subdirectory of the
  Token Store is still there, unchanged, after \<open>deleteAllSessions\<close>; when the
  operation succeeds, the warning that it was skipped has been logged. In the User Data
  Tree, every immediate child, file or directory, whose \<open>lstatSync\<close>,
  \<open>rmSync\<close> and \<open>unlinkSync\<close> do not throw is gone, provided the directory could be
  enumerated.
\<close>

theorem deleteAllSessions_keeps_token_subdirectories:
  "(\<forall>n cs. child (tokensDir w) n = Some (Dir cs) \<longrightarrow>
      child (tokensDir (snd (deleteAllSessions e w))) n = Some (Dir cs) \<and>
      ((\<exists>a. fst (deleteAllSessions e w) = Inr a) \<longrightarrow>
         Log Warn (''Skipping unexpected directory in tokens folder: '' @ tokensDirPath e
                    @ ''/'' @ n) \<in> set (new_events w (snd (deleteAllSessions e w))))) \<and>
   (\<forall>n cs. userDataDir w = Some (Dir cs) \<and> n \<in> fst ` set cs \<and>
      \<not> readdir_fails e UserData \<and> \<not> lstat_fails e UserData n \<and>
      \<not> rm_fails e n \<and> \<not> unlink_fails e UserData n \<longrightarrow>
      child (userDataDir (snd (deleteAllSessions e w))) n = None)"
proof (intro conjI allI impI)
  fix n cs
  assume dir: "child (tokensDir w) n = Some (Dir cs)"
  then have dir': "child (tokensDir (userdata_done e w)) n = Some (Dir cs)" by simp
  from clear_tokens_keeps_dir [OF dir']
  show "child (tokensDir (snd (deleteAllSessions e w))) n = Some (Dir cs)"
    by (simp add: deleteAllSessions_phases)
  assume "\<exists>a. fst (deleteAllSessions e w) = Inr a"
  then have "fst (clear_tokens e (userdata_done e w)) = None"
    by (auto dest: deleteAllSessions_Inr)
  from clear_tokens_warns [OF this dir']
  show "Log Warn (''Skipping unexpected directory in tokens folder: '' @ tokensDirPath e
                   @ ''/'' @ n) \<in> set (new_events w (snd (deleteAllSessions e w)))"
    by (rule token_phase_event)
next
  fix n cs
  assume a: "userDataDir w = Some (Dir cs) \<and> n \<in> fst ` set cs \<and>
      \<not> readdir_fails e UserData \<and> \<not> lstat_fails e UserData n \<and>
      \<not> rm_fails e n \<and> \<not> unlink_fails e UserData n"
  then have "child (userDataDir (clear_userdata e (teardown_done e w))) n = None"
    by (intro clear_userdata_deletes [of _ cs]) simp_all
  then show "child (userDataDir (snd (deleteAllSessions e w))) n = None"
    by (simp add: deleteAllSessions_phases)
qed

theorem deleteAllSessions_keeps_token_subdirectories_witness:
  "child (tokensDir example_world) ''sub'' = Some (Dir [(''x'', File ''X'')]) \<and>
   child (tokensDir (snd (deleteAllSessions example_env example_world))) ''sub''
     = Some (Dir [(''x'', File ''X'')]) \<and>
   fst (deleteAllSessions example_env example_world)
     = Inr \<lparr>success = True, message = Some ''All sessions closed and data/tokens cleared.''\<rparr> \<and>
   Log Warn ''Skipping unexpected directory in tokens folder: /srv/tokens/sub''
     \<in> set (new_events example_world (snd (deleteAllSessions example_env example_world))) \<and>
   tokensDir (snd (deleteAllSessions example_env example_world))
     = Some (Dir [(''sub'', Dir [(''x'', File ''X'')])]) \<and>
   userDataDir example_world
     = Some (Dir [(''profile'', Dir [(''cookies.bin'', File ''C'')]), (''f'', File ''F'')]) \<and>
   child (userDataDir (snd (deleteAllSessions example_env example_world))) ''profile'' = None \<and>
   child (userDataDir (snd (deleteAllSessions example_env example_world))) ''f'' = None"
  using deleteAllSessions_keeps_token_subdirectories [of example_world example_env]
  by (simp add: example_delete_run example_world_dirs)

subsection \<open>Which errors deleteAllSessions escalates\<close>

text \<open>
  C8, as stated, says that a per-item error while the Token Store is cleared fails the
  operation. It does not when the error comes from \<open>unlinkSync\<close>: that call stands
  in an inner \<open>try\<close> of its own. In the example below the token file cannot be
  unlinked; the error is logged, the file stays, and the operation reports success.
\<close>

theorem token_unlink_error_not_escalated:
  "child (tokensDir example_world) ''a.data.json'' = Some (File ''A'') \<and>
   unlink_fails busy_token_env Tokens ''a.data.json'' \<and>
   Log Err ''Error deleting token file /srv/tokens/a.data.json: EACCES''
     \<in> set (new_events example_world (snd (deleteAllSessions busy_token_env example_world))) \<and>
   child (tokensDir (snd (deleteAllSessions busy_token_env example_world))) ''a.data.json''
     = Some (File ''A'') \<and>
   fst (deleteAllSessions busy_token_env example_world)
     = Inr \<lparr>success = True, message = Some ''All sessions closed and data/tokens cleared.''\<rparr>"
  by (simp add: busy_token_delete_run example_world_dirs)
     (simp add: busy_token_env_def)

text \<open>
  C8, amended. In the User Data Tree phase an item whose \<open>lstatSync\<close>, \<open>rmSync\<close> or
  \<open>unlinkSync\<close> throws is logged and the loop goes on: the items that do not fail are
  deleted. In the Token Store phase a file whose \<open>unlinkSync\<close> throws is logged and
  stays, and the loop goes on as well: the other files are deleted. None of these errors
  fails the operation: it succeeds whenever the Token Store is absent, or can be
  enumerated and every \<open>lstatSync\<close> in it answers. An error of \<open>readdirSync\<close> or of
  an item's \<open>lstatSync\<close> in the Token Store phase is logged and fails the operation
  with \<open>Failed to fully clear all session data\<close>, whatever the User Data Tree phase
  did.
\<close>

theorem deleteAllSessions_error_escalation:
  "(\<forall>cs item c. userDataDir w = Some (Dir cs) \<and> distinct (map fst cs) \<and>
      \<not> readdir_fails e UserData \<and> map_of cs item = Some c \<and>
      (lstat_fails e UserData item \<or>
       (if is_dir c then rm_fails e item else unlink_fails e UserData item)) \<longrightarrow>
      Log Err (''Error deleting item '' @ sessionDirPath e @ ''/'' @ item @ '': ''
                @ errmsg EACCES) \<in> set (new_events w (snd (deleteAllSessions e w)))) \<and>
   (\<forall>cs n. userDataDir w = Some (Dir cs) \<and> n \<in> fst ` set cs \<and>
      \<not> readdir_fails e UserData \<and> \<not> lstat_fails e UserData n \<and>
      \<not> rm_fails e n \<and> \<not> unlink_fails e UserData n \<longrightarrow>
      child (userDataDir (snd (deleteAllSessions e w))) n = None) \<and>
   (\<forall>item b a. child (tokensDir w) item = Some (File b) \<and> unlink_fails e Tokens item \<and>
      fst (deleteAllSessions e w) = Inr a \<longrightarrow>
      Log Err (''Error deleting token file '' @ tokensDirPath e @ ''/'' @ item @ '': ''
                @ errmsg EACCES) \<in> set (new_events w (snd (deleteAllSessions e w))) \<and>
      child (tokensDir (snd (deleteAllSessions e w))) item = Some (File b)) \<and>
   (\<forall>item b a. child (tokensDir w) item = Some (File b) \<and> \<not> unlink_fails e Tokens item \<and>
      fst (deleteAllSessions e w) = Inr a \<longrightarrow>
      child (tokensDir (snd (deleteAllSessions e w))) item = None) \<and>
   (tokensDir w = None \<or>
    (\<exists>cs. tokensDir w = Some (Dir cs) \<and> distinct (map fst cs) \<and>
          \<not> readdir_fails e Tokens \<and> (\<forall>i \<in> fst ` set cs. \<not> lstat_fails e Tokens i)) \<longrightarrow>
      fst (deleteAllSessions e w) =
        Inr \<lparr>success = True, message = Some ''All sessions closed and data/tokens cleared.''\<rparr>) \<and>
   (\<forall>d. tokensDir w = Some d \<and>
      (readdir_fails e Tokens \<or> \<not> is_dir d \<or>
       (\<exists>cs i. d = Dir cs \<and> i \<in> fst ` set cs \<and> lstat_fails e Tokens i)) \<longrightarrow>
      (\<exists>err. fst (deleteAllSessions e w) =
         Inl (Error (''Failed to fully clear all session data. Error during token cleanup: ''
                      @ errmsg err)) \<and>
         Log Err (''Error clearing tokens directory '' @ tokensDirPath e @ '': '' @ errmsg err)
           \<in> set (new_events w (snd (deleteAllSessions e w)))))"
proof (intro conjI allI impI)
  fix cs item c
  assume a: "userDataDir w = Some (Dir cs) \<and> distinct (map fst cs) \<and>
      \<not> readdir_fails e UserData \<and> map_of cs item = Some c \<and>
      (lstat_fails e UserData item \<or>
       (if is_dir c then rm_fails e item else unlink_fails e UserData item))"
  then have "Log Err (''Error deleting item '' @ sessionDirPath e @ ''/'' @ item @ '': ''
                @ errmsg EACCES)
      \<in> set (new_events (teardown_done e w) (clear_userdata e (teardown_done e w)))"
    by (intro clear_userdata_logs [of _ cs _ _ c]) simp_all
  then show "Log Err (''Error deleting item '' @ sessionDirPath e @ ''/'' @ item @ '': ''
                @ errmsg EACCES) \<in> set (new_events w (snd (deleteAllSessions e w)))"
    by (rule userdata_phase_event)
next
  fix cs n
  assume a: "userDataDir w = Some (Dir cs) \<and> n \<in> fst ` set cs \<and>
      \<not> readdir_fails e UserData \<and> \<not> lstat_fails e UserData n \<and>
      \<not> rm_fails e n \<and> \<not> unlink_fails e UserData n"
  then have "child (userDataDir (clear_userdata e (teardown_done e w))) n = None"
    by (intro clear_userdata_deletes [of _ cs]) simp_all
  then show "child (userDataDir (snd (deleteAllSessions e w))) n = None"
    by (simp add: deleteAllSessions_phases)
next
  fix item b a
  assume a: "child (tokensDir w) item = Some (File b) \<and> unlink_fails e Tokens item \<and>
      fst (deleteAllSessions e w) = Inr a"
  then have ok: "fst (clear_tokens e (userdata_done e w)) = None"
    by (auto dest: deleteAllSessions_Inr)
  from a have f: "child (tokensDir (userdata_done e w)) item = Some (File b)" by simp
  from a have u: "unlink_fails e Tokens item" by simp
  note r = clear_tokens_unlink_fails [OF ok f u]
  from r show "Log Err (''Error deleting token file '' @ tokensDirPath e @ ''/'' @ item @ '': ''
                @ errmsg EACCES) \<in> set (new_events w (snd (deleteAllSessions e w)))"
    by (intro token_phase_event) simp
  from r show "child (tokensDir (snd (deleteAllSessions e w))) item = Some (File b)"
    by (simp add: deleteAllSessions_phases)
next
  fix item b a
  assume a: "child (tokensDir w) item = Some (File b) \<and> \<not> unlink_fails e Tokens item \<and>
      fst (deleteAllSessions e w) = Inr a"
  then have ok: "fst (clear_tokens e (userdata_done e w)) = None"
    by (auto dest: deleteAllSessions_Inr)
  from a have f: "child (tokensDir (userdata_done e w)) item = Some (File b)" by simp
  from a have u: "\<not> unlink_fails e Tokens item" by simp
  from clear_tokens_unlinks [OF ok f u]
  show "child (tokensDir (snd (deleteAllSessions e w))) item = None"
    by (simp add: deleteAllSessions_phases)
next
  assume "tokensDir w = None \<or>
    (\<exists>cs. tokensDir w = Some (Dir cs) \<and> distinct (map fst cs) \<and>
          \<not> readdir_fails e Tokens \<and> (\<forall>i \<in> fst ` set cs. \<not> lstat_fails e Tokens i))"
  then have "fst (clear_tokens e (userdata_done e w)) = None"
    by (intro clear_tokens_completes) simp
  then show "fst (deleteAllSessions e w) =
        Inr \<lparr>success = True, message = Some ''All sessions closed and data/tokens cleared.''\<rparr>"
    by (simp add: deleteAllSessions_phases cleared_def)
next
  fix d
  assume a: "tokensDir w = Some d \<and>
      (readdir_fails e Tokens \<or> \<not> is_dir d \<or>
       (\<exists>cs i. d = Dir cs \<and> i \<in> fst ` set cs \<and> lstat_fails e Tokens i))"
  then have d: "tokensDir (userdata_done e w) = Some d" by simp
  from a have c: "readdir_fails e Tokens \<or> \<not> is_dir d \<or>
       (\<exists>cs i. d = Dir cs \<and> i \<in> fst ` set cs \<and> lstat_fails e Tokens i)" by simp
  from clear_tokens_escalates [OF d c]
  obtain err where err: "fst (clear_tokens e (userdata_done e w)) =
           Some (Error (''Failed to fully clear all session data. Error during token cleanup: ''
                         @ errmsg err))"
      "Log Err (''Error clearing tokens directory '' @ tokensDirPath e @ '': '' @ errmsg err)
         \<in> set (new_events (userdata_done e w) (snd (clear_tokens e (userdata_done e w))))"
    by blast
  from err(1) have "fst (deleteAllSessions e w) =
         Inl (Error (''Failed to fully clear all session data. Error during token cleanup: ''
                      @ errmsg err))"
    by (simp add: deleteAllSessions_phases)
  moreover from err(2)
  have "Log Err (''Error clearing tokens directory '' @ tokensDirPath e @ '': '' @ errmsg err)
           \<in> set (new_events w (snd (deleteAllSessions e w)))"
    by (rule token_phase_event)
  ultimately show "\<exists>err. fst (deleteAllSessions e w) =
         Inl (Error (''Failed to fully clear all session data. Error during token cleanup: ''
                      @ errmsg err)) \<and>
         Log Err (''Error clearing tokens directory '' @ tokensDirPath e @ '': '' @ errmsg err)
           \<in> set (new_events w (snd (deleteAllSessions e w)))"
    by blast
qed

theorem deleteAllSessions_error_escalation_witness:
  "Log Err ''Error deleting item /srv/userDataDir/profile: EACCES''
     \<in> set (new_events example_world (snd (deleteAllSessions busy_profile_env example_world))) \<and>
   child (userDataDir (snd (deleteAllSessions busy_profile_env example_world))) ''f'' = None \<and>
   child (userDataDir (snd (deleteAllSessions busy_profile_env example_world))) ''profile''
     = Some (Dir [(''cookies.bin'', File ''C'')]) \<and>
   fst (deleteAllSessions busy_profile_env example_world)
     = Inr \<lparr>success = True, message = Some ''All sessions closed and data/tokens cleared.''\<rparr> \<and>
   Log Err ''Error deleting token file /srv/tokens/a.data.json: EACCES''
     \<in> set (new_events example_world (snd (deleteAllSessions busy_token_env example_world))) \<and>
   fst (deleteAllSessions busy_token_env example_world)
     = Inr \<lparr>success = True, message = Some ''All sessions closed and data/tokens cleared.''\<rparr> \<and>
   child (tokensDir (snd (deleteAllSessions example_env example_world))) ''a.data.json'' = None \<and>
   fst (deleteAllSessions unreadable_token_env example_world)
     = Inl (Error ''Failed to fully clear all session data. Error during token cleanup: EACCES'') \<and>
   userDataDir (snd (deleteAllSessions unreadable_token_env example_world)) = Some (Dir [])"
  using deleteAllSessions_error_escalation [of example_world busy_profile_env]
  by (simp add: busy_profile_delete_run busy_token_delete_run example_delete_run
        unreadable_token_delete_run)

subsection \<open>A failure of the User Data Tree phase is not fatal\<close>

text \<open>
  C10. When the User Data Tree exists and cannot be enumerated (\<open>readdirSync\<close>
  throws, or the path is not a directory), the error is logged, the tree is left as it
  is, and the operation goes on to the Token Store phase: that phase is announced, the
  token files whose \<open>unlinkSync\<close> does not throw are deleted when the operation
  succeeds, and it succeeds whenever the Token Store is absent, or can be enumerated and
  every \<open>lstatSync\<close> in it answers.
\<close>

theorem deleteAllSessions_userdata_failure_not_fatal:
  assumes "userDataDir w = Some d" and "readdir_fails e UserData \<or> \<not> is_dir d"
  shows
    "Log Err (''Error clearing session directory '' @ sessionDirPath e @ '': ''
               @ errmsg (if readdir_fails e UserData then EACCES else ENOTDIR))
       \<in> set (new_events w (snd (deleteAllSessions e w))) \<and>
     userDataDir (snd (deleteAllSessions e w)) = userDataDir w \<and>
     Log Info (''Attempting to clear tokens directory: '' @ tokensDirPath e)
       \<in> set (new_events w (snd (deleteAllSessions e w))) \<and>
     (\<forall>item b a. child (tokensDir w) item = Some (File b) \<and> \<not> unlink_fails e Tokens item \<and>
        fst (deleteAllSessions e w) = Inr a \<longrightarrow>
        child (tokensDir (snd (deleteAllSessions e w))) item = None) \<and>
     (tokensDir w = None \<or>
      (\<exists>cs. tokensDir w = Some (Dir cs) \<and> distinct (map fst cs) \<and>
            \<not> readdir_fails e Tokens \<and> (\<forall>i \<in> fst ` set cs. \<not> lstat_fails e Tokens i)) \<longrightarrow>
        fst (deleteAllSessions e w) =
          Inr \<lparr>success = True, message = Some ''All sessions closed and data/tokens cleared.''\<rparr>)"
proof (intro conjI allI impI)
  let ?w1 = "teardown_done e w"
  let ?err = "Log Err (''Error clearing session directory '' @ sessionDirPath e @ '': ''
               @ errmsg (if readdir_fails e UserData then EACCES else ENOTDIR))"
  have ud: "userDataDir ?w1 = Some d" using assms(1) by simp
  note fails = clear_userdata_enumeration_fails [OF ud assms(2)]
  have "?err \<in> set (new_events ?w1 (clear_userdata e ?w1))"
    unfolding fails by (simp add: new_events_def)
  then show "?err \<in> set (new_events w (snd (deleteAllSessions e w)))"
    by (rule userdata_phase_event)
  show "userDataDir (snd (deleteAllSessions e w)) = userDataDir w"
    by (simp add: deleteAllSessions_phases fails)
  have "Log Info (''Attempting to clear tokens directory: '' @ tokensDirPath e)
          \<in> set (new_events ?w1 (userdata_done e w))"
    unfolding userdata_done_def by (simp add: new_events_emit [OF clear_userdata_prefix])
  then have "Log Info (''Attempting to clear tokens directory: '' @ tokensDirPath e)
          \<in> set (new_events ?w1 (snd (deleteAllSessions e w)))"
    by (rule in_new_events_earlier [OF userdata_done_prefix deleted_prefix])
  then show "Log Info (''Attempting to clear tokens directory: '' @ tokensDirPath e)
       \<in> set (new_events w (snd (deleteAllSessions e w)))"
    by (rule in_new_events_later
          [OF teardown_done_prefix prefix_order.trans [OF userdata_done_prefix deleted_prefix]])
next
  fix item b a
  assume a: "child (tokensDir w) item = Some (File b) \<and> \<not> unlink_fails e Tokens item \<and>
      fst (deleteAllSessions e w) = Inr a"
  then have ok: "fst (clear_tokens e (userdata_done e w)) = None"
    by (auto dest: deleteAllSessions_Inr)
  from a have f: "child (tokensDir (userdata_done e w)) item = Some (File b)" by simp
  from a have u: "\<not> unlink_fails e Tokens item" by simp
  from clear_tokens_unlinks [OF ok f u]
  show "child (tokensDir (snd (deleteAllSessions e w))) item = None"
    by (simp add: deleteAllSessions_phases)
next
  assume "tokensDir w = None \<or>
    (\<exists>cs. tokensDir w = Some (Dir cs) \<and> distinct (map fst cs) \<and>
          \<not> readdir_fails e Tokens \<and> (\<forall>i \<in> fst ` set cs. \<not> lstat_fails e Tokens i))"
  then have "fst (clear_tokens e (userdata_done e w)) = None"
    by (intro clear_tokens_completes) simp
  then show "fst (deleteAllSessions e w) =
        Inr \<lparr>success = True, message = Some ''All sessions closed and data/tokens cleared.''\<rparr>"
    by (simp add: deleteAllSessions_phases cleared_def)
qed

theorem deleteAllSessions_userdata_failure_not_fatal_witness:
  "userDataDir example_world
     = Some (Dir [(''profile'', Dir [(''cookies.bin'', File ''C'')]), (''f'', File ''F'')]) \<and>
   readdir_fails unreadable_userdata_env UserData \<and>
   Log Err ''Error clearing session directory /srv/userDataDir: EACCES''
     \<in> set (new_events example_world (snd (deleteAllSessions unreadable_userdata_env example_world))) \<and>
   userDataDir (snd (deleteAllSessions unreadable_userdata_env example_world))
     = userDataDir example_world \<and>
   tokensDir (snd (deleteAllSessions unreadable_userdata_env example_world))
     = Some (Dir [(''sub'', Dir [(''x'', File ''X'')])]) \<and>
   fst (deleteAllSessions unreadable_userdata_env example_world)
     = Inr \<lparr>success = True, message = Some ''All sessions closed and data/tokens cleared.''\<rparr>"
proof -
  have fails: "readdir_fails unreadable_userdata_env UserData \<or>
      \<not> is_dir (Dir [(''profile'', Dir [(''cookies.bin'', File ''C'')]), (''f'', File ''F'')])"
    by (simp add: unreadable_userdata_env_def)
  from deleteAllSessions_userdata_failure_not_fatal [OF example_world_dirs(2) fails]
  show ?thesis
    by (simp add: unreadable_userdata_delete_run example_world_dirs)
       (simp add: unreadable_userdata_env_def)
qed

subsection \<open>Copying a tree\<close>

lemma file_at_simps [simp]:
  "file_at (File b) [] = Some b"
  "file_at (File b) (x # xs) = None"
  "file_at (Dir cs) [] = None"
  "file_at (Dir cs) (x # xs) = (case map_of cs x of None \<Rightarrow> None | Some c \<Rightarrow> file_at c xs)"
  by (simp_all add: file_at_def split: option.splits)

lemma file_in_simps [simp]:
  "file_in None p = None"
  "file_in (Some n) p = file_at n p"
  by (simp_all add: file_in_def)

lemma file_at_child: "file_in d (x # xs) = file_in (child d x) xs"
  by (cases d rule: option.exhaust; simp add: child_def split: node.splits option.splits)

lemma cp_items_Dir: "\<exists>rs. fst (cp_items f cs ds) = Dir rs"
proof (induction cs arbitrary: ds)
  case Nil
  show ?case by simp
next
  case (Cons nc cs)
  obtain n c where nc: "nc = (n, c)" by (cases nc)
  obtain c' ok where c': "cp_node f c (map_of ds n) = (c', ok)"
    by (cases "cp_node f c (map_of ds n)")
  show ?case using Cons [of "AList.update n c' ds"] nc c' by (cases ok) simp_all
qed

lemma cp_items_ok:
  assumes "distinct (map fst cs)" and "cp_items f cs ds = (r, True)"
  shows "\<exists>rs. r = Dir rs \<and>
           (\<forall>n. map_of rs n =
              (case map_of cs n of
                 None \<Rightarrow> map_of ds n
               | Some c \<Rightarrow> Some (fst (cp_node f c (map_of ds n))))) \<and>
           (\<forall>n c. map_of cs n = Some c \<longrightarrow> snd (cp_node f c (map_of ds n)))"
  using assms
proof (induction cs arbitrary: ds)
  case Nil
  then show ?case by auto
next
  case (Cons mc cs)
  obtain m c where mc: "mc = (m, c)" by (cases mc)
  obtain c' ok where c': "cp_node f c (map_of ds m) = (c', ok)"
    by (cases "cp_node f c (map_of ds m)")
  from Cons.prems(2) mc c' have ok: "ok" by (cases ok) simp_all
  with Cons.prems(2) mc c' have rest: "cp_items f cs (AList.update m c' ds) = (r, True)"
    by simp
  from Cons.prems(1) mc have dist: "distinct (map fst cs)" and fresh: "m \<notin> fst ` set cs"
    by auto
  from Cons.IH [OF dist rest] obtain rs where rs: "r = Dir rs"
    and look: "\<And>n. map_of rs n =
              (case map_of cs n of
                 None \<Rightarrow> map_of (AList.update m c' ds) n
               | Some c \<Rightarrow> Some (fst (cp_node f c (map_of (AList.update m c' ds) n))))"
    and oks: "\<And>n c. map_of cs n = Some c \<Longrightarrow> snd (cp_node f c (map_of (AList.update m c' ds) n))"
    by blast
  from fresh have none: "map_of cs m = None" by (simp add: map_of_eq_None_iff)
  have upd: "\<And>n. n \<noteq> m \<Longrightarrow> map_of (AList.update m c' ds) n = map_of ds n"
    by (simp add: AList.update_conv')
  have "\<forall>n. map_of rs n =
              (case map_of (mc # cs) n of
                 None \<Rightarrow> map_of ds n
               | Some c \<Rightarrow> Some (fst (cp_node f c (map_of ds n))))"
  proof
    fix n
    show "map_of rs n =
              (case map_of (mc # cs) n of
                 None \<Rightarrow> map_of ds n
               | Some c \<Rightarrow> Some (fst (cp_node f c (map_of ds n))))"
    proof (cases "n = m")
      case True
      with look [of m] none c' mc show ?thesis by (simp add: AList.update_conv')
    next
      case False
      with look [of n] upd [of n] mc show ?thesis by (simp split: option.splits)
    qed
  qed
  moreover have "\<forall>n c2. map_of (mc # cs) n = Some c2 \<longrightarrow> snd (cp_node f c2 (map_of ds n))"
  proof (intro allI impI)
    fix n c2 assume a: "map_of (mc # cs) n = Some c2"
    show "snd (cp_node f c2 (map_of ds n))"
    proof (cases "n = m")
      case True
      with a mc c' ok show ?thesis by simp
    next
      case False
      with a mc have "map_of cs n = Some c2" by simp
      from oks [OF this] upd [OF False] show ?thesis by simp
    qed
  qed
  ultimately show ?case using rs by blast
qed

lemma wf_node_child: "wf_node (Dir cs) \<Longrightarrow> map_of cs x = Some c \<Longrightarrow> wf_node c"
  by (auto dest: map_of_SomeD)

lemma cp_node_files:
  assumes "wf_node s" and "cp_node f s d = (r, True)"
  shows "file_at r p = merged f (file_at s p) (file_in d p)"
  using assms
proof (induction p arbitrary: s d r)
  case Nil
  then show ?case
    by (cases "(f, s, d)" rule: cp_node.cases)
       (auto simp: merged_def dest: cp_items_ok [rotated])
next
  case (Cons x xs)
  show ?case
  proof (cases s)
    case (File b)
    with Cons.prems(2) show ?thesis
      by (cases "(f, s, d)" rule: cp_node.cases) (auto simp: merged_def split: if_splits)
  next
    case (Dir cs)
    have nofile: "d \<noteq> Some (File b)" for b
      using Cons.prems(2) Dir by auto
    define ds where "ds = (case d of Some (Dir ds) \<Rightarrow> ds | _ \<Rightarrow> [])"
    have run: "cp_items f cs ds = (r, True)"
      using Cons.prems(2) Dir
      by (cases "(f, s, d)" rule: cp_node.cases) (simp_all add: ds_def)
    have din: "file_in d (x # xs) = file_in (map_of ds x) xs"
      using Cons.prems(2) Dir
      by (cases "(f, s, d)" rule: cp_node.cases)
         (simp_all add: ds_def file_in_def split: option.splits)
    from Cons.prems(1) Dir have dist: "distinct (map fst cs)" by simp
    from cp_items_ok [OF dist run] obtain rs where rs: "r = Dir rs"
      and look: "\<And>n. map_of rs n =
              (case map_of cs n of
                 None \<Rightarrow> map_of ds n
               | Some c \<Rightarrow> Some (fst (cp_node f c (map_of ds n))))"
      and oks: "\<And>n c. map_of cs n = Some c \<Longrightarrow> snd (cp_node f c (map_of ds n))"
      by blast
    show ?thesis
    proof (cases "map_of cs x")
      case None
      with look [of x] rs Dir din show ?thesis
        by (simp add: merged_def file_in_def split: option.splits)
    next
      case (Some c)
      from Cons.prems(1) Dir Some have wfc: "wf_node c" by (auto dest: wf_node_child)
      obtain c' where c': "cp_node f c (map_of ds x) = (c', True)"
        using oks [OF Some] by (cases "cp_node f c (map_of ds x)") simp
      from Cons.IH [OF wfc c']
      have "file_at c' xs = merged f (file_at c xs) (file_in (map_of ds x) xs)" .
      with look [of x] Some c' rs Dir din show ?thesis by simp
    qed
  qed
qed

text \<open>Without \<open>force\<close> no file of the destination changes, whether the copy throws or not.\<close>

lemma cp_keeps_files:
  "f = False \<longrightarrow> (\<forall>p b. file_in d p = Some b \<longrightarrow> file_at (fst (cp_node f s d)) p = Some b)"
  "f = False \<longrightarrow>
     (\<forall>p b. file_at (Dir ds) p = Some b \<longrightarrow> file_at (fst (cp_items f cs ds)) p = Some b)"
proof (induction f s d and f cs ds rule: cp_node_cp_items.induct)
  case (8 force name c cs ds)
  show ?case
  proof (intro impI allI)
    fix p b
    assume nf: "force = False" and fl: "file_at (Dir ds) p = Some b"
    obtain c' ok where c': "cp_node force c (map_of ds name) = (c', ok)"
      by (cases "cp_node force c (map_of ds name)")
    have keep: "file_at (Dir (AList.update name c' ds)) p = Some b"
    proof (cases p)
      case Nil
      with fl show ?thesis by simp
    next
      case (Cons x xs)
      show ?thesis
      proof (cases "x = name")
        case True
        with fl Cons obtain dc where dc: "map_of ds name = Some dc" "file_at dc xs = Some b"
          by (auto split: option.splits)
        with "8.IH"(1) nf c' have "file_at c' xs = Some b" by auto
        with Cons True show ?thesis by (simp add: AList.update_conv')
      next
        case False
        with fl Cons show ?thesis by (simp add: AList.update_conv')
      qed
    qed
    show "file_at (fst (cp_items force ((name, c) # cs) ds)) p = Some b"
    proof (cases ok)
      case True
      with "8.IH"(2) [OF c' [symmetric]] c' nf keep show ?thesis by simp
    next
      case False
      with c' keep show ?thesis by simp
    qed
  qed
qed (auto split: if_splits)

lemma cpSync_keeps_files:
  assumes "file_in d p = Some b"
  shows "file_in (fst (cpSync False s d)) p = Some b"
proof (cases s)
  case None
  with assms show ?thesis by (simp add: cpSync_def)
next
  case (Some n)
  from cp_keeps_files(1) [of False d n] assms
  have "file_at (fst (cp_node False n d)) p = Some b" by blast
  with Some show ?thesis by (cases "cp_node False n d") (simp add: cpSync_def)
qed

text \<open>Well-formed trees stay well-formed.\<close>

lemma wf_update:
  assumes "wf_node (Dir ds)" and "wf_node c"
  shows "wf_node (Dir (AList.update n c ds))"
proof -
  have "set (AList.update n c ds) \<subseteq> insert (n, c) (set ds)"
    by (induction ds) auto
  with assms show ?thesis by (auto simp: AList.distinct_update)
qed

lemma cp_wf:
  "wf_node s \<longrightarrow> (\<forall>n. d = Some n \<longrightarrow> wf_node n) \<longrightarrow> wf_node (fst (cp_node f s d))"
  "wf_node (Dir cs) \<longrightarrow> wf_node (Dir ds) \<longrightarrow> wf_node (fst (cp_items f cs ds))"
proof (induction f s d and f cs ds rule: cp_node_cp_items.induct)
  case (8 force name c cs ds)
  show ?case
  proof (intro impI)
    assume wfc: "wf_node (Dir ((name, c) # cs))" and wfd: "wf_node (Dir ds)"
    obtain c' ok where c': "cp_node force c (map_of ds name) = (c', ok)"
      by (cases "cp_node force c (map_of ds name)")
    from wfd have "\<forall>n. map_of ds name = Some n \<longrightarrow> wf_node n"
      by (auto dest: wf_node_child)
    with "8.IH"(1) wfc c' have "wf_node c'" by simp
    with wfd have upd: "wf_node (Dir (AList.update name c' ds))" by (rule wf_update)
    from wfc have rest: "wf_node (Dir cs)" by simp
    show "wf_node (fst (cp_items force ((name, c) # cs) ds))"
    proof (cases ok)
      case True
      with "8.IH"(2) [OF c' [symmetric]] c' rest upd show ?thesis by simp
    next
      case False
      with c' upd show ?thesis by simp
    qed
  qed
qed simp_all



lemma merged_simps [simp]:
  "merged f None d = d"
  "merged f s None = s"
  "merged True (Some b) d = Some b"
  "merged False s (Some b') = Some b'"
  by (simp_all add: merged_def split: option.splits)

lemma file_at_empty [simp]: "file_at (Dir []) p = None"
  by (cases p) simp_all

lemma cpSync_files:
  assumes "wf_node s" and "snd (cpSync f (Some s) d)"
  shows "file_in (fst (cpSync f (Some s) d)) p = merged f (file_at s p) (file_in d p)"
proof -
  obtain r where r: "cp_node f s d = (r, True)"
    using assms(2) by (cases "cp_node f s d") (simp add: cpSync_def)
  from cp_node_files [OF assms(1) r] r show ?thesis by (simp add: cpSync_def)
qed

lemma cp_node_Dir_result:
  assumes "cp_node f (Dir cs) d = (r, True)"
  shows "\<exists>rs. r = Dir rs"
  using assms cp_items_Dir [of f cs]
  by (cases "(f, Dir cs, d)" rule: cp_node.cases) (auto, (metis fst_conv)+)



subsection \<open>What an extraction writes\<close>

text \<open>
  Skipping the directory entries of a well-formed tree loses no file: what is written
  is well-formed and holds the same files, and nothing is written only for a directory
  that holds no file.
\<close>

lemma files_only_sound:
  "wf_node c \<longrightarrow>
     (case files_only c of
        None \<Rightarrow> is_dir c \<and> (\<forall>p. file_at c p = None)
      | Some c' \<Rightarrow> wf_node c' \<and> is_dir c' = is_dir c \<and> (\<forall>p. file_at c' p = file_at c p))"
  "wf_node (Dir cs) \<longrightarrow>
     wf_node (Dir (files_only_items cs)) \<and>
     (\<forall>n. map_of (files_only_items cs) n
            = (case map_of cs n of None \<Rightarrow> None | Some c \<Rightarrow> files_only c)) \<and>
     (\<forall>p. file_at (Dir (files_only_items cs)) p = file_at (Dir cs) p)"
proof (induction c and cs rule: files_only_files_only_items.induct)
  case (1 b)
  show ?case by simp
next
  case (2 cs)
  show ?case
  proof (intro impI)
    assume wf: "wf_node (Dir cs)"
    with 2 have ih: "wf_node (Dir (files_only_items cs))"
      "\<forall>p. file_at (Dir (files_only_items cs)) p = file_at (Dir cs) p" by simp_all
    show "case files_only (Dir cs) of
            None \<Rightarrow> is_dir (Dir cs) \<and> (\<forall>p. file_at (Dir cs) p = None)
          | Some c' \<Rightarrow> wf_node c' \<and> is_dir c' = is_dir (Dir cs) \<and>
                       (\<forall>p. file_at c' p = file_at (Dir cs) p)"
    proof (cases "files_only_items cs")
      case Nil
      with ih(2) have "\<forall>p. file_at (Dir cs) p = None" by simp
      with Nil show ?thesis by simp
    next
      case (Cons a ws)
      with ih show ?thesis by simp
    qed
  qed
next
  case 3
  show ?case by simp
next
  case (4 name c cs)
  show ?case
  proof (intro impI)
    assume wf: "wf_node (Dir ((name, c) # cs))"
    then have wfc: "wf_node c" and wfcs: "wf_node (Dir cs)" and fresh: "map_of cs name = None"
      by (auto simp: map_of_eq_None_iff)
    from "4.IH"(1) wfc have c: "case files_only c of
        None \<Rightarrow> is_dir c \<and> (\<forall>p. file_at c p = None)
      | Some c' \<Rightarrow> wf_node c' \<and> is_dir c' = is_dir c \<and> (\<forall>p. file_at c' p = file_at c p)"
      by simp
    have ih: "wf_node (Dir (files_only_items cs))"
      "\<And>n. map_of (files_only_items cs) n
            = (case map_of cs n of None \<Rightarrow> None | Some c \<Rightarrow> files_only c)"
      "\<And>p. file_at (Dir (files_only_items cs)) p = file_at (Dir cs) p"
      using "4.IH"(2,3) wfcs by (cases "files_only c"; simp)+
    from ih(2) [of name] fresh have fresh': "map_of (files_only_items cs) name = None" by simp
    show "wf_node (Dir (files_only_items ((name, c) # cs))) \<and>
          (\<forall>n. map_of (files_only_items ((name, c) # cs)) n
            = (case map_of ((name, c) # cs) n of None \<Rightarrow> None | Some c \<Rightarrow> files_only c)) \<and>
          (\<forall>p. file_at (Dir (files_only_items ((name, c) # cs))) p
                 = file_at (Dir ((name, c) # cs)) p)"
    proof (cases "files_only c")
      case None
      with c have nofile: "\<And>p. file_at c p = None" by simp
      have "file_at (Dir (files_only_items cs)) p = file_at (Dir ((name, c) # cs)) p" for p
      proof (cases p)
        case Nil
        then show ?thesis by simp
      next
        case (Cons x xs)
        show ?thesis
        proof (cases "x = name")
          case True
          with Cons fresh' nofile show ?thesis by simp
        next
          case False
          with Cons ih(3) [of "x # xs"] show ?thesis by simp
        qed
      qed
      with None ih(1) ih(2) fresh show ?thesis by simp
    next
      case (Some c')
      with c have c': "wf_node c'" "\<And>p. file_at c' p = file_at c p" by simp_all
      from fresh' have "name \<notin> fst ` set (files_only_items cs)"
        by (simp add: map_of_eq_None_iff)
      with ih(1) c'(1) have wf': "wf_node (Dir ((name, c') # files_only_items cs))" by simp
      have "file_at (Dir ((name, c') # files_only_items cs)) p = file_at (Dir ((name, c) # cs)) p"
        for p
      proof (cases p)
        case Nil
        then show ?thesis by simp
      next
        case (Cons x xs)
        show ?thesis
        proof (cases "x = name")
          case True
          with Cons c'(2) show ?thesis by simp
        next
          case False
          with Cons ih(3) [of "x # xs"] show ?thesis by simp
        qed
      qed
      with Some wf' ih(2) show ?thesis by simp
    qed
  qed
qed

text \<open>
  The entries that an extraction writes, whichever way it treats directory entries: a
  name that the archive does not have is not written, and an entry of the archive is
  written with its files, or holds no file and is not written.
\<close>

lemma extract_entries_sound:
  assumes "wf_node (Dir arch)"
  shows "wf_node (Dir (extract_entries e arch))"
    and "map_of arch n = None \<Longrightarrow> map_of (extract_entries e arch) n = None"
    and "map_of arch n = Some c \<Longrightarrow>
           (map_of (extract_entries e arch) n = None \<and> (\<forall>p. file_at c p = None)) \<or>
           (\<exists>c'. map_of (extract_entries e arch) n = Some c' \<and> wf_node c' \<and>
                 is_dir c' = is_dir c \<and> (\<forall>p. file_at c' p = file_at c p))"
proof -
  from files_only_sound(2) [of arch] assms
  have fo: "wf_node (Dir (files_only_items arch))"
    "\<And>n. map_of (files_only_items arch) n
            = (case map_of arch n of None \<Rightarrow> None | Some c \<Rightarrow> files_only c)"
    by simp_all
  show "wf_node (Dir (extract_entries e arch))"
    using assms fo(1) by (simp add: extract_entries_def)
  show "map_of (extract_entries e arch) n = None" if "map_of arch n = None"
    using that fo(2) [of n] by (simp add: extract_entries_def)
  show "(map_of (extract_entries e arch) n = None \<and> (\<forall>p. file_at c p = None)) \<or>
        (\<exists>c'. map_of (extract_entries e arch) n = Some c' \<and> wf_node c' \<and>
              is_dir c' = is_dir c \<and> (\<forall>p. file_at c' p = file_at c p))"
    if n: "map_of arch n = Some c"
  proof (cases "extract_makes_dirs e")
    case True
    from assms n have "wf_node c" by (rule wf_node_child)
    with True n show ?thesis by (simp add: extract_entries_def)
  next
    case False
    from assms n have wfc: "wf_node c" by (rule wf_node_child)
    from False fo(2) [of n] n
    have look: "map_of (extract_entries e arch) n = files_only c"
      by (simp add: extract_entries_def)
    show ?thesis
    proof (cases "files_only c")
      case None
      with files_only_sound(1) [of c] wfc look show ?thesis by simp
    next
      case (Some c')
      with files_only_sound(1) [of c] wfc look show ?thesis by simp
    qed
  qed
qed

text \<open>
  An entry of a well-formed tree copied with \<open>force\<close> onto a directory: it stands
  there and holds its files, over what was there. A name the tree does not have keeps
  what it had.
\<close>

lemma copied_entry:
  assumes "wf_node (Dir es)" and "\<forall>n. rd = Some n \<longrightarrow> wf_node n"
    and "cp_node True (Dir es) rd = (r, True)" and "map_of es name = Some c"
  shows "\<exists>t. child (Some r) name = Some t \<and> wf_node t \<and>
           (\<forall>p. file_at t p = merged True (file_at c p) (file_in (child rd name) p)) \<and>
           (is_dir c \<longrightarrow> is_dir t)"
proof -
  define ds where "ds = (case rd of Some (Dir ds) \<Rightarrow> ds | _ \<Rightarrow> [])"
  have run: "cp_items True es ds = (r, True)"
    using assms(3) by (cases "(True, Dir es, rd)" rule: cp_node.cases) (simp_all add: ds_def)
  have ch: "child rd name = map_of ds name"
    using assms(3)
    by (cases "(True, Dir es, rd)" rule: cp_node.cases) (simp_all add: ds_def child_def)
  from assms(1) have dist: "distinct (map fst es)" by simp
  from cp_items_ok [OF dist run] assms(4) obtain rs where rs: "r = Dir rs"
    and look: "map_of rs name = Some (fst (cp_node True c (map_of ds name)))"
    and ok: "snd (cp_node True c (map_of ds name))"
    by (metis (no_types, lifting) option.simps(5))
  obtain t where t: "cp_node True c (map_of ds name) = (t, True)"
    using ok by (cases "cp_node True c (map_of ds name)") simp
  from assms(1,4) have wfc: "wf_node c" by (rule wf_node_child)
  have wfd: "\<forall>n. map_of ds name = Some n \<longrightarrow> wf_node n"
  proof (intro allI impI)
    fix n assume n: "map_of ds name = Some n"
    then obtain dn where "rd = Some (Dir dn)" "ds = dn"
      by (cases rd; simp add: ds_def split: node.splits) 
    with assms(2) n show "wf_node n" by (auto dest: wf_node_child)
  qed
  from cp_wf(1) [of c "map_of ds name" True] wfc wfd t have wft: "wf_node t"
    by simp
  have files: "file_at t p = merged True (file_at c p) (file_in (child rd name) p)" for p
    using cp_node_files [OF wfc t, of p] ch by simp
  have dir: "is_dir t" if "is_dir c"
  proof -
    from that obtain cs where "c = Dir cs" by (cases c) simp_all
    with cp_node_Dir_result [of True cs "map_of ds name" t] t show ?thesis by auto
  qed
  have "child (Some r) name = Some t"
    using rs look t by (simp add: child_def)
  with wft files dir show ?thesis by blast
qed

lemma copied_absent:
  assumes "wf_node (Dir es)" and "cp_node True (Dir es) rd = (r, True)"
    and "map_of es name = None"
  shows "child (Some r) name = child rd name"
proof -
  define ds where "ds = (case rd of Some (Dir ds) \<Rightarrow> ds | _ \<Rightarrow> [])"
  have run: "cp_items True es ds = (r, True)"
    using assms(2) by (cases "(True, Dir es, rd)" rule: cp_node.cases) (simp_all add: ds_def)
  have ch: "child rd name = map_of ds name"
    using assms(2)
    by (cases "(True, Dir es, rd)" rule: cp_node.cases) (simp_all add: ds_def child_def)
  from assms(1) have dist: "distinct (map fst es)" by simp
  from cp_items_ok [OF dist run] assms(3) obtain rs where rs: "r = Dir rs"
    and look: "map_of rs name = map_of ds name"
    by (metis (no_types, lifting) option.simps(4))
  from rs look ch show ?thesis by (simp add: child_def)
qed

text \<open>
  An entry of a well-formed archive, after the extraction: either it holds no file and
  the extraction directory has at its name what it had, or it stands under the
  extraction directory and holds the files of the entry, over what was there. At a name
  the archive does not have, the extraction directory has what it had.
\<close>

lemma extracted_entry:
  assumes "wf_node (Dir arch)" and "\<forall>n. rd = Some n \<longrightarrow> wf_node n"
    and "unzipper_Extract e arch rd = (r, True)" and "map_of arch name = Some c"
  shows "(child r name = child rd name \<and> (\<forall>p. file_at c p = None)) \<or>
         (\<exists>t. child r name = Some t \<and> wf_node t \<and>
           (\<forall>p. file_at t p = merged True (file_at c p) (file_in (child rd name) p)) \<and>
           (is_dir c \<longrightarrow> is_dir t))"
proof -
  note es = extract_entries_sound [OF assms(1), where e = e]
  from es(3) [OF assms(4)] show ?thesis
  proof (elim disjE exE conjE)
    assume none: "map_of (extract_entries e arch) name = None" and nofile: "\<forall>p. file_at c p = None"
    have "child r name = child rd name"
    proof (cases "extract_entries e arch = []")
      case True
      with assms(3) show ?thesis by (simp add: unzipper_Extract_def)
    next
      case False
      with assms(3) obtain r' where r': "r = Some r'"
        "cp_node True (Dir (extract_entries e arch)) rd = (r', True)"
        by (cases "cp_node True (Dir (extract_entries e arch)) rd")
           (auto simp: unzipper_Extract_def)
      from copied_absent [OF es(1) r'(2) none] r'(1) show ?thesis by simp
    qed
    with nofile show ?thesis by blast
  next
    fix c'
    assume c': "map_of (extract_entries e arch) name = Some c'" "wf_node c'"
      "is_dir c' = is_dir c" "\<forall>p. file_at c' p = file_at c p"
    then have "extract_entries e arch \<noteq> []" by auto
    with assms(3) obtain r' where r': "r = Some r'"
      "cp_node True (Dir (extract_entries e arch)) rd = (r', True)"
      by (cases "cp_node True (Dir (extract_entries e arch)) rd")
         (auto simp: unzipper_Extract_def)
    from copied_entry [OF es(1) assms(2) r'(2) c'(1)] r'(1) c'(3,4)
    show ?thesis by simp
  qed
qed



subsection \<open>The runs of restoreSessions on a zip upload\<close>

lemma on_extract_close_result:
  "tokensDir (on_extract_close w)
     = fst (cpSync True (child (restoreDir w) ''tokens'') (tokensDir w))"
  "userDataDir (on_extract_close w)
     = fst (cpSync False (child (restoreDir w) ''userDataDir'') (userDataDir w))"
  "trace (on_extract_close w) = trace w @
     (if snd (cpSync True (child (restoreDir w) ''tokens'') (tokensDir w)) then []
      else [Log Info ''Folder 'tokens' not found.'']) @
     (if snd (cpSync False (child (restoreDir w) ''userDataDir'') (userDataDir w)) then []
      else [Log Info ''Folder 'userDataDir' not found.'']) @
     [Log Info ''Sessions successfully restored. Starting...'', StartAllSessions]"
  "restoreDir (on_extract_close w) = restoreDir w"
  by (simp_all add: on_extract_close_def Let_def split: prod.splits)

text \<open>
  The run of \<open>restoreSessions\<close> on a zip upload, by whether the archive extracts.
\<close>

lemma restore_run_zip:
  assumes "declares_zip file" and "content (the file) = Zip arch"
  obtains
    (not_extracted) pre where "\<not> snd (unzipper_Extract e arch (restoreDir w))"
      "\<forall>ev \<in> set pre. teardown_event ev"
      "new_events w (snd (restore_run e w file)) = pre @ [Returned]"
      "tokensDir (snd (restore_run e w file)) = tokensDir w"
      "userDataDir (snd (restore_run e w file)) = userDataDir w"
  | (extracted) pre r where "unzipper_Extract e arch (restoreDir w) = (r, True)"
      "\<forall>ev \<in> set pre. teardown_event ev"
      "new_events w (snd (restore_run e w file)) = pre @ [Returned, ExtractClosed] @
         (if snd (cpSync True (child r ''tokens'') (tokensDir w)) then []
          else [Log Info ''Folder 'tokens' not found.'']) @
         (if snd (cpSync False (child r ''userDataDir'') (userDataDir w)) then []
          else [Log Info ''Folder 'userDataDir' not found.'']) @
         [Log Info ''Sessions successfully restored. Starting...'', StartAllSessions]"
      "tokensDir (snd (restore_run e w file))
         = fst (cpSync True (child r ''tokens'') (tokensDir w))"
      "userDataDir (snd (restore_run e w file))
         = fst (cpSync False (child r ''userDataDir'') (userDataDir w))"
      "restoreDir (snd (restore_run e w file)) = r"
proof -
  let ?w' = "snd (restoreSessions e w file)"
  note acc = restoreSessions_accepts [OF assms(1), of e w]
  from restoreSessions_events [OF assms(1), of e w]
  obtain pre where pre: "trace ?w' = trace w @ pre @ [Returned]"
    "\<forall>ev \<in> set pre. teardown_event ev" by blast
  have run: "snd (restore_run e w file) = run_extraction e ?w'"
    by (simp add: restore_run_def acc)
  have st: "extracting ?w' = Some (Zip arch)" "restoreDir ?w' = restoreDir w"
    "tokensDir ?w' = tokensDir w" "userDataDir ?w' = userDataDir w"
    using assms(2) by (simp_all add: acc)
  obtain r ok where c: "unzipper_Extract e arch (restoreDir w) = (r, ok)"
    by (cases "unzipper_Extract e arch (restoreDir w)")
  show ?thesis
  proof (cases ok)
    case False
    have "run_extraction e ?w' = ?w'\<lparr>restoreDir := r, extracting := None\<rparr>"
      using st c False by (simp add: run_extraction_def)
    with pre st c False show ?thesis
      by (intro not_extracted [of pre]) (simp_all add: run new_events_def)
  next
    case True
    let ?w2 = "emit ExtractClosed (?w'\<lparr>restoreDir := r, extracting := None\<rparr>)"
    have ex: "run_extraction e ?w' = on_extract_close ?w2"
      using st c True by (simp add: run_extraction_def)
    have w2: "restoreDir ?w2 = r" "tokensDir ?w2 = tokensDir w"
      "userDataDir ?w2 = userDataDir w" "trace ?w2 = trace w @ pre @ [Returned, ExtractClosed]"
      using st pre(1) by simp_all
    have fin: "snd (restore_run e w file) = on_extract_close ?w2"
      by (simp add: run ex)
    have a: "tokensDir (snd (restore_run e w file))
         = fst (cpSync True (child r ''tokens'') (tokensDir w))"
      unfolding fin on_extract_close_result w2 ..
    have b: "userDataDir (snd (restore_run e w file))
         = fst (cpSync False (child r ''userDataDir'') (userDataDir w))"
      unfolding fin on_extract_close_result w2 ..
    have rd: "restoreDir (snd (restore_run e w file)) = r"
      unfolding fin on_extract_close_result w2 ..
    have "trace (snd (restore_run e w file)) = (trace w @ pre @ [Returned, ExtractClosed]) @
         (if snd (cpSync True (child r ''tokens'') (tokensDir w)) then []
          else [Log Info ''Folder 'tokens' not found.'']) @
         (if snd (cpSync False (child r ''userDataDir'') (userDataDir w)) then []
          else [Log Info ''Folder 'userDataDir' not found.'']) @
         [Log Info ''Sessions successfully restored. Starting...'', StartAllSessions]"
      unfolding fin on_extract_close_result w2 ..
    then have d: "new_events w (snd (restore_run e w file)) = pre @ [Returned, ExtractClosed] @
         (if snd (cpSync True (child r ''tokens'') (tokensDir w)) then []
          else [Log Info ''Folder 'tokens' not found.'']) @
         (if snd (cpSync False (child r ''userDataDir'') (userDataDir w)) then []
          else [Log Info ''Folder 'userDataDir' not found.'']) @
         [Log Info ''Sessions successfully restored. Starting...'', StartAllSessions]"
      by (simp add: new_events_def)
    from c True have c': "unzipper_Extract e arch (restoreDir w) = (r, True)" by simp
    from c' pre(2) d a b rd show ?thesis by (rule extracted)
  qed
qed

text \<open>
  The part of a run after the archive has extracted, file by file: a file of the
  archive's \<open>tokens\<close> entry is in the Token Store when the forced copy has not
  thrown; a file of the archive's \<open>userDataDir\<close> entry is in the User Data Tree when
  the copy has not thrown and the tree had no file at that path.
\<close>

lemma restore_run_files:
  assumes "declares_zip file" and "content (the file) = Zip arch"
    and "wf_node (Dir arch)" and "\<forall>n. restoreDir w = Some n \<longrightarrow> wf_node n"
    and "ExtractClosed \<in> set (new_events w (snd (restore_run e w file)))"
  shows "file_in (map_of arch ''tokens'') p = Some b \<Longrightarrow>
           Log Info ''Folder 'tokens' not found.''
             \<notin> set (new_events w (snd (restore_run e w file))) \<Longrightarrow>
           file_in (tokensDir (snd (restore_run e w file))) p = Some b"
    and "file_in (map_of arch ''userDataDir'') p = Some b \<Longrightarrow>
           file_in (userDataDir w) p = None \<Longrightarrow>
           Log Info ''Folder 'userDataDir' not found.''
             \<notin> set (new_events w (snd (restore_run e w file))) \<Longrightarrow>
           file_in (userDataDir (snd (restore_run e w file))) p = Some b"
proof -
  let ?w' = "snd (restore_run e w file)"
  from assms(1,2) have
    "\<exists>pre r. unzipper_Extract e arch (restoreDir w) = (r, True) \<and>
       (\<forall>ev \<in> set pre. teardown_event ev) \<and>
       new_events w ?w' = pre @ [Returned, ExtractClosed] @
         (if snd (cpSync True (child r ''tokens'') (tokensDir w)) then []
          else [Log Info ''Folder 'tokens' not found.'']) @
         (if snd (cpSync False (child r ''userDataDir'') (userDataDir w)) then []
          else [Log Info ''Folder 'userDataDir' not found.'']) @
         [Log Info ''Sessions successfully restored. Starting...'', StartAllSessions] \<and>
       tokensDir ?w' = fst (cpSync True (child r ''tokens'') (tokensDir w)) \<and>
       userDataDir ?w' = fst (cpSync False (child r ''userDataDir'') (userDataDir w))"
  proof (cases rule: restore_run_zip [where w = w and e = e])
    case (not_extracted pre)
    have "ExtractClosed \<notin> set (new_events w ?w')"
      unfolding not_extracted(3) using teardown_free(10) [OF not_extracted(2)] by simp
    with assms(5) show ?thesis by simp
  next
    case (extracted pre r)
    from extracted(1-5) show ?thesis by blast
  qed
  then obtain pre r where ex: "unzipper_Extract e arch (restoreDir w) = (r, True)"
    and ev: "new_events w ?w' = pre @ [Returned, ExtractClosed] @
         (if snd (cpSync True (child r ''tokens'') (tokensDir w)) then []
          else [Log Info ''Folder 'tokens' not found.'']) @
         (if snd (cpSync False (child r ''userDataDir'') (userDataDir w)) then []
          else [Log Info ''Folder 'userDataDir' not found.'']) @
         [Log Info ''Sessions successfully restored. Starting...'', StartAllSessions]"
    and t3: "tokensDir ?w' = fst (cpSync True (child r ''tokens'') (tokensDir w))"
    and u3: "userDataDir ?w' = fst (cpSync False (child r ''userDataDir'') (userDataDir w))"
    by (elim exE conjE)
  show "file_in (tokensDir ?w') p = Some b"
    if b: "file_in (map_of arch ''tokens'') p = Some b"
      and nolog: "Log Info ''Folder 'tokens' not found.'' \<notin> set (new_events w ?w')"
  proof -
    from b obtain c where c: "map_of arch ''tokens'' = Some c" "file_at c p = Some b"
      by (cases "map_of arch ''tokens''") simp_all
    from extracted_entry [OF assms(3,4) ex c(1)] c(2)
    obtain t where t: "child r ''tokens'' = Some t" "wf_node t"
      "\<forall>p. file_at t p = merged True (file_at c p) (file_in (child (restoreDir w) ''tokens'') p)"
      by (elim disjE exE conjE) simp_all
    from nolog have ok: "snd (cpSync True (child r ''tokens'') (tokensDir w))"
      unfolding ev by (auto split: if_splits)
    from cpSync_files [OF t(2) ok [unfolded t(1)], of p] t(3) c(2)
    show ?thesis unfolding t3 t(1) by simp
  qed
  show "file_in (userDataDir ?w') p = Some b"
    if b: "file_in (map_of arch ''userDataDir'') p = Some b"
      and free: "file_in (userDataDir w) p = None"
      and nolog: "Log Info ''Folder 'userDataDir' not found.'' \<notin> set (new_events w ?w')"
  proof -
    from b obtain c where c: "map_of arch ''userDataDir'' = Some c" "file_at c p = Some b"
      by (cases "map_of arch ''userDataDir''") simp_all
    from extracted_entry [OF assms(3,4) ex c(1)] c(2)
    obtain t where t: "child r ''userDataDir'' = Some t" "wf_node t"
      "\<forall>p. file_at t p
             = merged True (file_at c p) (file_in (child (restoreDir w) ''userDataDir'') p)"
      by (elim disjE exE conjE) simp_all
    from nolog have ok: "snd (cpSync False (child r ''userDataDir'') (userDataDir w))"
      unfolding ev by (auto split: if_splits)
    from cpSync_files [OF t(2) ok [unfolded t(1)], of p] t(3) c(2) free
    show ?thesis unfolding u3 t(1) by simp
  qed
qed

subsection \<open>Entries of the archive in the stores\<close>


subsection \<open>The merge law of restoreSessions\<close>

lemmas restore_eval =
  restore_run_def restoreSessions_def run_extraction_def unzipper_Extract_def
  extract_entries_def on_extract_close_def
  closeAllSessions_def declares_zip_def cpSync_def child_def status_truthy_def new_events_def
  file_in_def Let_def example_env_def example_world_def

lemma example_restore_run:
  "new_events example_world (snd (restore_run example_env example_world example_upload))
     = [Log Info ''Starting restore sessions...'',
        RegistryDelete ''a'', Log Info ''Stopping session: a'', BrowserClose ''a'',
        Log Err ''Error stopping session: a'',
        RegistryDelete ''b'', Log Info ''Stopping session: b'', BrowserClose ''b'',
        RegistryDelete ''b'', GraceElapsed, Returned, ExtractClosed,
        Log Info ''Sessions successfully restored. Starting...'', StartAllSessions]"
  "tokensDir (snd (restore_run example_env example_world example_upload))
     = Some (Dir [(''a.data.json'', File ''A2''), (''sub'', Dir [(''x'', File ''X'')])])"
  "userDataDir (snd (restore_run example_env example_world example_upload))
     = Some (Dir [(''profile'', Dir [(''cookies.bin'', File ''C'')]), (''f'', File ''F''),
                  (''g'', File ''G2'')])"
  by (simp_all add: restore_eval example_upload_def)

lemma conflict_restore_run:
  "new_events conflict_world (snd (restore_run example_env conflict_world conflict_upload))
     = [Log Info ''Starting restore sessions...'',
        RegistryDelete ''a'', Log Info ''Stopping session: a'', BrowserClose ''a'',
        Log Err ''Error stopping session: a'',
        RegistryDelete ''b'', Log Info ''Stopping session: b'', BrowserClose ''b'',
        RegistryDelete ''b'', GraceElapsed, Returned, ExtractClosed,
        Log Info ''Folder 'tokens' not found.'',
        Log Info ''Folder 'userDataDir' not found.'',
        Log Info ''Sessions successfully restored. Starting...'', StartAllSessions]"
  "tokensDir (snd (restore_run example_env conflict_world conflict_upload))
     = Some (Dir [(''a'', Dir []), (''b.json'', File ''old'')])"
  by (simp_all add: restore_eval conflict_world_def conflict_upload_def)

text \<open>
  C4, as stated, says that every file present both in the live Token Store and in the
  archive's \<open>tokens\<close> entry ends with the archive's contents. The forced copy stops at
  the first entry that is a file on one side and a directory on the other, and its
  \<open>catch\<close> only logs: the entries after it are not copied. Below, the store holds a
  directory \<open>a\<close> and the entry a file \<open>a\<close>, enumerated before \<open>b.json\<close>; the
  archive extracts, the restart happens, and \<open>b.json\<close> keeps its live contents.
\<close>

theorem restore_conflict_keeps_live_token:
  "declares_zip conflict_upload \<and>
   content (the conflict_upload)
     = Zip [(''tokens'', Dir [(''a'', File ''x''), (''b.json'', File ''new'')])] \<and>
   file_in (map_of [(''tokens'', Dir [(''a'', File ''x''), (''b.json'', File ''new'')])] ''tokens'')
     [''b.json''] = Some ''new'' \<and>
   file_in (tokensDir conflict_world) [''b.json''] = Some ''old'' \<and>
   ExtractClosed
     \<in> set (new_events conflict_world (snd (restore_run example_env conflict_world conflict_upload))) \<and>
   StartAllSessions
     \<in> set (new_events conflict_world (snd (restore_run example_env conflict_world conflict_upload))) \<and>
   file_in (tokensDir (snd (restore_run example_env conflict_world conflict_upload))) [''b.json'']
     = Some ''old''"
  by (simp add: conflict_restore_run)
     (simp add: conflict_world_def conflict_upload_def declares_zip_def example_world_def)

text \<open>
  C4, amended. Let a zip upload hold a well-formed archive, the extraction directory
  being well-formed too. When the archive extracts and the copy of its \<open>tokens\<close> entry
  does not throw (no \<open>Folder 'tokens' not found.\<close> is logged), every file of that entry
  is in the Token Store afterwards with the archive's contents, whatever the store held
  at that path. Every file of the live User Data Tree keeps its contents, whatever the
  archive holds and whether or not anything throws.
\<close>

theorem restoreSessions_merge_law:
  assumes "declares_zip file" and "content (the file) = Zip arch"
    and "wf_node (Dir arch)" and "\<forall>n. restoreDir w = Some n \<longrightarrow> wf_node n"
  shows
    "(\<forall>p b. file_in (map_of arch ''tokens'') p = Some b \<and>
        ExtractClosed \<in> set (new_events w (snd (restore_run e w file))) \<and>
        Log Info ''Folder 'tokens' not found.''
          \<notin> set (new_events w (snd (restore_run e w file))) \<longrightarrow>
        file_in (tokensDir (snd (restore_run e w file))) p = Some b) \<and>
     (\<forall>p b. file_in (userDataDir w) p = Some b \<longrightarrow>
        file_in (userDataDir (snd (restore_run e w file))) p = Some b)"
proof (intro conjI allI impI)
  fix p b
  assume a: "file_in (map_of arch ''tokens'') p = Some b \<and>
      ExtractClosed \<in> set (new_events w (snd (restore_run e w file))) \<and>
      Log Info ''Folder 'tokens' not found.'' \<notin> set (new_events w (snd (restore_run e w file)))"
  then have ec: "ExtractClosed \<in> set (new_events w (snd (restore_run e w file)))" by simp
  from restore_run_files(1) [OF assms ec, of p b] a
  show "file_in (tokensDir (snd (restore_run e w file))) p = Some b" by simp
next
  fix p b
  assume live: "file_in (userDataDir w) p = Some b"
  from assms(1,2) show "file_in (userDataDir (snd (restore_run e w file))) p = Some b"
  proof (cases rule: restore_run_zip [where w = w and e = e])
    case (not_extracted pre)
    with live show ?thesis by simp
  next
    case (extracted pre r)
    show ?thesis unfolding extracted(5) using live by (rule cpSync_keeps_files)
  qed
qed

theorem restoreSessions_merge_law_witness:
  "declares_zip example_upload \<and>
   content (the example_upload)
     = Zip [(''tokens'', Dir [(''a.data.json'', File ''A2'')]),
            (''userDataDir'', Dir [(''f'', File ''F2''), (''g'', File ''G2'')])] \<and>
   file_in (tokensDir example_world) [''a.data.json''] = Some ''A'' \<and>
   file_in (tokensDir (snd (restore_run example_env example_world example_upload)))
     [''a.data.json''] = Some ''A2'' \<and>
   file_in (userDataDir example_world) [''f''] = Some ''F'' \<and>
   file_in (userDataDir (snd (restore_run example_env example_world example_upload))) [''f'']
     = Some ''F'' \<and>
   file_in (userDataDir (snd (restore_run example_env example_world example_upload))) [''g'']
     = Some ''G2''"
proof -
  have zip: "declares_zip example_upload"
    and arch: "content (the example_upload)
      = Zip [(''tokens'', Dir [(''a.data.json'', File ''A2'')]),
             (''userDataDir'', Dir [(''f'', File ''F2''), (''g'', File ''G2'')])]"
    by (simp_all add: example_upload_def declares_zip_def)
  have wfa: "wf_node (Dir [(''tokens'', Dir [(''a.data.json'', File ''A2'')]),
                           (''userDataDir'', Dir [(''f'', File ''F2''), (''g'', File ''G2'')])])"
    by simp
  have wfr: "\<forall>n. restoreDir example_world = Some n \<longrightarrow> wf_node n"
    by (simp add: example_world_def)
  from restoreSessions_merge_law [OF zip arch wfa wfr, of example_env] zip arch
  show ?thesis
    by (simp add: example_restore_run) (simp add: example_world_def)
qed

subsection \<open>restoreSessions answers before it merges\<close>

text \<open>
  C6. For an upload whose declared content type contains \<open>zip\<close>,
  \<open>restoreSessions\<close> returns \<open>{success: true}\<close> with the extraction scheduled and
  nothing else done: the Token Store, the User Data Tree and the extraction directory
  are as they were, and neither the \<open>close\<close> listener nor \<open>startAllSessions\<close> has run.
  In the run as a whole, the \<open>close\<close> event and the restart come after the return,
  the restart after the \<open>close\<close> event. When the archive extracts, the \<open>close\<close>
  listener does run after the return and leaves the two stores merged: the Token Store
  is what the forced copy of the extracted \<open>tokens\<close> directory makes of the store
  as it was at the return, the User Data Tree what the unforced copy of the extracted
  \<open>userDataDir\<close> directory makes of it, and the restart follows. So, for a
  well-formed archive and extraction directory, a file of the archive's \<open>tokens\<close>
  entry, and a file of its \<open>userDataDir\<close> entry at a path where the tree has no file,
  is in its store after the run whenever the copy did not throw, while at the return the
  store still had at that path what it had before the call.
\<close>

theorem restoreSessions_returns_before_merge:
  assumes "declares_zip file"
  shows "fst (restoreSessions e w file) = Inr \<lparr>success = True, message = None\<rparr> \<and>
         extracting (snd (restoreSessions e w file)) = Some (content (the file)) \<and>
         tokensDir (snd (restoreSessions e w file)) = tokensDir w \<and>
         userDataDir (snd (restoreSessions e w file)) = userDataDir w \<and>
         restoreDir (snd (restoreSessions e w file)) = restoreDir w \<and>
         ExtractClosed \<notin> set (new_events w (snd (restoreSessions e w file))) \<and>
         StartAllSessions \<notin> set (new_events w (snd (restoreSessions e w file))) \<and>
         fst (restore_run e w file) = Inr \<lparr>success = True, message = None\<rparr> \<and>
         prefix (new_events w (snd (restoreSessions e w file)))
           (new_events w (snd (restore_run e w file))) \<and>
         precedes Returned ExtractClosed (new_events w (snd (restore_run e w file))) \<and>
         precedes Returned StartAllSessions (new_events w (snd (restore_run e w file))) \<and>
         precedes ExtractClosed StartAllSessions (new_events w (snd (restore_run e w file))) \<and>
         (\<forall>arch r. content (the file) = Zip arch \<and>
            unzipper_Extract e arch (restoreDir w) = (r, True) \<longrightarrow>
              ExtractClosed \<in> set (new_events w (snd (restore_run e w file))) \<and>
              StartAllSessions \<in> set (new_events w (snd (restore_run e w file))) \<and>
              restoreDir (snd (restore_run e w file)) = r \<and>
              tokensDir (snd (restore_run e w file))
                = fst (cpSync True (child r ''tokens'')
                         (tokensDir (snd (restoreSessions e w file)))) \<and>
              userDataDir (snd (restore_run e w file))
                = fst (cpSync False (child r ''userDataDir'')
                         (userDataDir (snd (restoreSessions e w file))))) \<and>
         (\<forall>arch p b. content (the file) = Zip arch \<and> wf_node (Dir arch) \<and>
            (\<forall>n. restoreDir w = Some n \<longrightarrow> wf_node n) \<and>
            ExtractClosed \<in> set (new_events w (snd (restore_run e w file))) \<and>
            file_in (map_of arch ''tokens'') p = Some b \<and>
            Log Info ''Folder 'tokens' not found.''
              \<notin> set (new_events w (snd (restore_run e w file))) \<longrightarrow>
              file_in (tokensDir (snd (restoreSessions e w file))) p = file_in (tokensDir w) p \<and>
              file_in (tokensDir (snd (restore_run e w file))) p = Some b) \<and>
         (\<forall>arch p b. content (the file) = Zip arch \<and> wf_node (Dir arch) \<and>
            (\<forall>n. restoreDir w = Some n \<longrightarrow> wf_node n) \<and>
            ExtractClosed \<in> set (new_events w (snd (restore_run e w file))) \<and>
            file_in (map_of arch ''userDataDir'') p = Some b \<and>
            file_in (userDataDir w) p = None \<and>
            Log Info ''Folder 'userDataDir' not found.''
              \<notin> set (new_events w (snd (restore_run e w file))) \<longrightarrow>
              file_in (userDataDir (snd (restoreSessions e w file))) p = None \<and>
              file_in (userDataDir (snd (restore_run e w file))) p = Some b)"
proof -
  let ?w' = "snd (restoreSessions e w file)"
  let ?w'' = "snd (restore_run e w file)"
  note acc = restoreSessions_accepts [OF assms, of e w]
  from restoreSessions_events [OF assms, of e w]
  obtain pre where pre: "trace ?w' = trace w @ pre @ [Returned]"
    "\<forall>ev \<in> set pre. teardown_event ev" by blast
  have ne: "new_events w ?w' = pre @ [Returned]"
    using pre(1) by (rule new_events_append)
  have no_ec: "ExtractClosed \<notin> set pre" and no_st: "StartAllSessions \<notin> set pre"
    using pre(2) by auto
  have ret: "fst (restoreSessions e w file) = Inr \<lparr>success = True, message = None\<rparr>"
    "extracting ?w' = Some (content (the file))" "tokensDir ?w' = tokensDir w"
    "userDataDir ?w' = userDataDir w" "restoreDir ?w' = restoreDir w"
    by (simp_all add: acc)
  have ret_ev: "ExtractClosed \<notin> set (new_events w ?w')"
    "StartAllSessions \<notin> set (new_events w ?w')"
    using no_ec no_st by (simp_all add: ne)
  have run: "fst (restore_run e w file) = Inr \<lparr>success = True, message = None\<rparr>"
    by (simp add: restore_run_def acc)
  have shape: "\<exists>later. new_events w ?w'' = pre @ Returned # later \<and>
                 precedes ExtractClosed StartAllSessions later \<and>
                 (\<forall>arch r. content (the file) = Zip arch \<and>
                    unzipper_Extract e arch (restoreDir w) = (r, True) \<longrightarrow>
                      ExtractClosed \<in> set later \<and> StartAllSessions \<in> set later \<and>
                      restoreDir ?w'' = r \<and>
                      tokensDir ?w'' = fst (cpSync True (child r ''tokens'') (tokensDir w)) \<and>
                      userDataDir ?w''
                        = fst (cpSync False (child r ''userDataDir'') (userDataDir w)))"
  proof (cases "content (the file)")
    case Garbage
    have "run_extraction e ?w' = ?w'\<lparr>extracting := None\<rparr>"
      using Garbage by (simp add: run_extraction_def acc)
    then have "new_events w ?w'' = pre @ Returned # []"
      using pre(1) by (simp add: restore_run_def acc new_events_def)
    with Garbage show ?thesis by (intro exI [of _ "[]"]) simp
  next
    case (Zip arch)
    from assms Zip show ?thesis
    proof (cases rule: restore_run_zip [where w = w and e = e])
      case (not_extracted pre2)
      obtain r where "unzipper_Extract e arch (restoreDir w) = (r, False)"
        using not_extracted(1) by (cases "unzipper_Extract e arch (restoreDir w)") simp
      then have "run_extraction e ?w' = ?w'\<lparr>restoreDir := r, extracting := None\<rparr>"
        using Zip by (simp add: run_extraction_def acc)
      then have "new_events w ?w'' = pre @ Returned # []"
        using pre(1) by (simp add: restore_run_def acc new_events_def)
      with Zip not_extracted(1) show ?thesis by (intro exI [of _ "[]"]) auto
    next
      case (extracted pre2 r)
      let ?later = "ExtractClosed #
         (if snd (cpSync True (child r ''tokens'') (tokensDir w)) then []
          else [Log Info ''Folder 'tokens' not found.'']) @
         (if snd (cpSync False (child r ''userDataDir'') (userDataDir w)) then []
          else [Log Info ''Folder 'userDataDir' not found.'']) @
         [Log Info ''Sessions successfully restored. Starting...'', StartAllSessions]"
      have tr: "trace ?w'' = trace ?w' @ ?later"
        using extracted(1) Zip
        by (simp add: restore_run_def acc run_extraction_def on_extract_close_result)
      have "new_events w ?w'' = pre @ Returned # ?later"
        using tr pre(1) by (simp add: new_events_def)
      moreover have "precedes ExtractClosed StartAllSessions ?later"
        by (simp add: precedes_Cons)
      moreover have "ExtractClosed \<in> set ?later" "StartAllSessions \<in> set ?later" by simp_all
      ultimately show ?thesis
        using Zip extracted(1,4,5,6) by (intro exI [of _ ?later]) simp
    qed
  qed
  then obtain later where ne2: "new_events w ?w'' = pre @ Returned # later"
    and ord: "precedes ExtractClosed StartAllSessions later"
    and merge: "\<And>arch r. content (the file) = Zip arch \<Longrightarrow>
                    unzipper_Extract e arch (restoreDir w) = (r, True) \<Longrightarrow>
                      ExtractClosed \<in> set later \<and> StartAllSessions \<in> set later \<and>
                      restoreDir ?w'' = r \<and>
                      tokensDir ?w'' = fst (cpSync True (child r ''tokens'') (tokensDir w)) \<and>
                      userDataDir ?w''
                        = fst (cpSync False (child r ''userDataDir'') (userDataDir w))"
    by blast
  have pf: "prefix (new_events w ?w') (new_events w ?w'')"
    by (simp add: ne ne2)
  have p1: "precedes Returned ExtractClosed (pre @ Returned # later)"
    by (rule precedes_after [OF no_ec]) simp
  have p2: "precedes Returned StartAllSessions (pre @ Returned # later)"
    by (rule precedes_after [OF no_st]) simp
  have p3: "precedes ExtractClosed StartAllSessions (pre @ Returned # later)"
    using ord no_st no_ec by (simp add: precedes_append_absent precedes_Cons)
  have m1: "\<forall>arch r. content (the file) = Zip arch \<and>
            unzipper_Extract e arch (restoreDir w) = (r, True) \<longrightarrow>
              ExtractClosed \<in> set (new_events w ?w'') \<and>
              StartAllSessions \<in> set (new_events w ?w'') \<and>
              restoreDir ?w'' = r \<and>
              tokensDir ?w'' = fst (cpSync True (child r ''tokens'') (tokensDir ?w')) \<and>
              userDataDir ?w'' = fst (cpSync False (child r ''userDataDir'') (userDataDir ?w'))"
    using merge by (simp add: ne2 ret)
  have m2: "\<forall>arch p b. content (the file) = Zip arch \<and> wf_node (Dir arch) \<and>
            (\<forall>n. restoreDir w = Some n \<longrightarrow> wf_node n) \<and>
            ExtractClosed \<in> set (new_events w ?w'') \<and>
            file_in (map_of arch ''tokens'') p = Some b \<and>
            Log Info ''Folder 'tokens' not found.'' \<notin> set (new_events w ?w'') \<longrightarrow>
              file_in (tokensDir ?w') p = file_in (tokensDir w) p \<and>
              file_in (tokensDir ?w'') p = Some b"
  proof (intro allI impI, elim conjE)
    fix arch p b
    assume "content (the file) = Zip arch" "wf_node (Dir arch)"
      "\<forall>n. restoreDir w = Some n \<longrightarrow> wf_node n"
      "ExtractClosed \<in> set (new_events w ?w'')"
      "file_in (map_of arch ''tokens'') p = Some b"
      "Log Info ''Folder 'tokens' not found.'' \<notin> set (new_events w ?w'')"
    from restore_run_files(1) [OF assms this(1-4), of p b] this(5,6)
    show "file_in (tokensDir ?w') p = file_in (tokensDir w) p \<and>
          file_in (tokensDir ?w'') p = Some b"
      by (simp add: ret)
  qed
  have m3: "\<forall>arch p b. content (the file) = Zip arch \<and> wf_node (Dir arch) \<and>
            (\<forall>n. restoreDir w = Some n \<longrightarrow> wf_node n) \<and>
            ExtractClosed \<in> set (new_events w ?w'') \<and>
            file_in (map_of arch ''userDataDir'') p = Some b \<and>
            file_in (userDataDir w) p = None \<and>
            Log Info ''Folder 'userDataDir' not found.'' \<notin> set (new_events w ?w'') \<longrightarrow>
              file_in (userDataDir ?w') p = None \<and>
              file_in (userDataDir ?w'') p = Some b"
  proof (intro allI impI, elim conjE)
    fix arch p b
    assume "content (the file) = Zip arch" "wf_node (Dir arch)"
      "\<forall>n. restoreDir w = Some n \<longrightarrow> wf_node n"
      "ExtractClosed \<in> set (new_events w ?w'')"
      "file_in (map_of arch ''userDataDir'') p = Some b"
      "file_in (userDataDir w) p = None"
      "Log Info ''Folder 'userDataDir' not found.'' \<notin> set (new_events w ?w'')"
    from restore_run_files(2) [OF assms this(1-4), of p b] this(5,6,7)
    show "file_in (userDataDir ?w') p = None \<and> file_in (userDataDir ?w'') p = Some b"
      by (simp add: ret)
  qed
  from p1 p2 p3 have ps: "precedes Returned ExtractClosed (new_events w ?w'')"
    "precedes Returned StartAllSessions (new_events w ?w'')"
    "precedes ExtractClosed StartAllSessions (new_events w ?w'')"
    by (simp_all add: ne2)
  from ret ret_ev run pf ps m1 m2 m3 show ?thesis by blast
qed

lemma example_restore_return:
  "fst (restoreSessions example_env example_world example_upload)
     = Inr \<lparr>success = True, message = None\<rparr>"
  "new_events example_world (snd (restoreSessions example_env example_world example_upload))
     = [Log Info ''Starting restore sessions...'',
        RegistryDelete ''a'', Log Info ''Stopping session: a'', BrowserClose ''a'',
        Log Err ''Error stopping session: a'',
        RegistryDelete ''b'', Log Info ''Stopping session: b'', BrowserClose ''b'',
        RegistryDelete ''b'', GraceElapsed, Returned]"
  "tokensDir (snd (restoreSessions example_env example_world example_upload))
     = Some (Dir [(''a.data.json'', File ''A''), (''sub'', Dir [(''x'', File ''X'')])])"
  "userDataDir (snd (restoreSessions example_env example_world example_upload))
     = Some (Dir [(''profile'', Dir [(''cookies.bin'', File ''C'')]), (''f'', File ''F'')])"
  "unzipper_Extract example_env
     [(''tokens'', Dir [(''a.data.json'', File ''A2'')]),
      (''userDataDir'', Dir [(''f'', File ''F2''), (''g'', File ''G2'')])]
     (restoreDir example_world)
     = (Some (Dir [(''tokens'', Dir [(''a.data.json'', File ''A2'')]),
                   (''userDataDir'', Dir [(''f'', File ''F2''), (''g'', File ''G2'')])]), True)"
  by (simp_all add: restore_eval example_upload_def)

theorem restoreSessions_returns_before_merge_witness:
  "declares_zip example_upload \<and>
   content (the example_upload)
     = Zip [(''tokens'', Dir [(''a.data.json'', File ''A2'')]),
            (''userDataDir'', Dir [(''f'', File ''F2''), (''g'', File ''G2'')])] \<and>
   fst (restoreSessions example_env example_world example_upload)
     = Inr \<lparr>success = True, message = None\<rparr> \<and>
   new_events example_world (snd (restoreSessions example_env example_world example_upload))
     = [Log Info ''Starting restore sessions...'',
        RegistryDelete ''a'', Log Info ''Stopping session: a'', BrowserClose ''a'',
        Log Err ''Error stopping session: a'',
        RegistryDelete ''b'', Log Info ''Stopping session: b'', BrowserClose ''b'',
        RegistryDelete ''b'', GraceElapsed, Returned] \<and>
   new_events example_world (snd (restore_run example_env example_world example_upload))
     = [Log Info ''Starting restore sessions...'',
        RegistryDelete ''a'', Log Info ''Stopping session: a'', BrowserClose ''a'',
        Log Err ''Error stopping session: a'',
        RegistryDelete ''b'', Log Info ''Stopping session: b'', BrowserClose ''b'',
        RegistryDelete ''b'', GraceElapsed, Returned, ExtractClosed,
        Log Info ''Sessions successfully restored. Starting...'', StartAllSessions] \<and>
   precedes Returned StartAllSessions
     (new_events example_world (snd (restore_run example_env example_world example_upload))) \<and>
   unzipper_Extract example_env
     [(''tokens'', Dir [(''a.data.json'', File ''A2'')]),
      (''userDataDir'', Dir [(''f'', File ''F2''), (''g'', File ''G2'')])]
     (restoreDir example_world)
     = (Some (Dir [(''tokens'', Dir [(''a.data.json'', File ''A2'')]),
                   (''userDataDir'', Dir [(''f'', File ''F2''), (''g'', File ''G2'')])]), True) \<and>
   file_in (tokensDir (snd (restoreSessions example_env example_world example_upload)))
     [''a.data.json''] = Some ''A'' \<and>
   file_in (tokensDir (snd (restore_run example_env example_world example_upload)))
     [''a.data.json''] = Some ''A2'' \<and>
   file_in (userDataDir (snd (restoreSessions example_env example_world example_upload)))
     [''g''] = None \<and>
   file_in (userDataDir (snd (restore_run example_env example_world example_upload)))
     [''g''] = Some ''G2'' \<and>
   file_in (userDataDir (snd (restore_run example_env example_world example_upload)))
     [''f''] = Some ''F''"
proof -
  have zip: "declares_zip example_upload"
    and arch: "content (the example_upload)
      = Zip [(''tokens'', Dir [(''a.data.json'', File ''A2'')]),
             (''userDataDir'', Dir [(''f'', File ''F2''), (''g'', File ''G2'')])]"
    by (simp_all add: example_upload_def declares_zip_def)
  from restoreSessions_returns_before_merge [OF zip, of example_env example_world]
  have ack: "fst (restoreSessions example_env example_world example_upload)
               = Inr \<lparr>success = True, message = None\<rparr>"
    and ord: "precedes Returned StartAllSessions
       (new_events example_world (snd (restore_run example_env example_world example_upload)))"
    by simp_all
  from ack ord zip arch show ?thesis
    by (simp add: example_restore_run example_restore_return)
qed

subsection \<open>Export, then import\<close>










end
